theory Spec2Isabelle
  imports Main
begin

section \<open>Structure extractor: the hierarchy builder\<close>

text \<open>
  A section descriptor as \<^verbatim>\<open>parseDocxTemplate\<close> pushes it: the id is a generated UUID,
  the level an integer (\<^verbatim>\<open>parseInt\<close> of a digit, or \<^verbatim>\<open>Math.min(dotCount + 1, 4)\<close>).
\<close>

record descriptor =
  sec_id :: string
  level :: int
  title :: string
  placeholder :: "string option"
  order_no :: nat
  isTitle :: bool

text \<open>
  \<^verbatim>\<open>{ ...section, parentId }\<close>: the descriptor with the parent link added;
  \<^verbatim>\<open>null\<close> is \<open>None\<close>.
\<close>

record descriptor_with_parent = descriptor +
  parentId :: "string option"

definition with_parent :: "descriptor \<Rightarrow> string option \<Rightarrow> descriptor_with_parent" where
  "with_parent s p = descriptor.extend s (descriptor_with_parent.fields p)"

text \<open>
  The stack of \<^verbatim>\<open>{level, id}\<close> entries, its top at the head of the list. The inner
  \<^verbatim>\<open>while\<close> loop pops every entry whose level is at least the current one.
\<close>

fun pop_stack :: "(int \<times> string) list \<Rightarrow> int \<Rightarrow> (int \<times> string) list" where
  "pop_stack [] l = []"
| "pop_stack ((sl, si) # st) l = (if sl \<ge> l then pop_stack st l else (sl, si) # st)"

definition stack_top_id :: "(int \<times> string) list \<Rightarrow> string option" where
  "stack_top_id st = (case st of [] \<Rightarrow> None | (sl, si) # rest \<Rightarrow> Some si)"

fun buildHierarchy_loop :: "(int \<times> string) list \<Rightarrow> descriptor list \<Rightarrow> descriptor_with_parent list" where
  "buildHierarchy_loop st [] = []"
| "buildHierarchy_loop st (s # ss) =
     (let st' = pop_stack st (level s)
      in with_parent s (stack_top_id st') # buildHierarchy_loop ((level s, sec_id s) # st') ss)"

definition buildHierarchy :: "descriptor list \<Rightarrow> descriptor_with_parent list" where
  "buildHierarchy flatStructure = buildHierarchy_loop [] flatStructure"

text \<open>Forgetting the parent link gives the descriptor back.\<close>

definition strip_parent :: "descriptor_with_parent \<Rightarrow> descriptor" where
  "strip_parent d = descriptor.truncate d"

text \<open>
  The id of the nearest descriptor before position \<open>i\<close> whose level is strictly lower
  than that of the descriptor at \<open>i\<close>.
\<close>

definition nearest_lower :: "descriptor list \<Rightarrow> int \<Rightarrow> string option" where
  "nearest_lower before l = map_option sec_id (find (\<lambda>e. level e < l) (rev before))"

text \<open>
  Following parent links by id: the chain of ancestors of a descriptor, nearest first.
  \<open>None\<close> when a link dangles or the fuel runs out before a root is reached.
\<close>

definition lookup_id :: "descriptor_with_parent list \<Rightarrow> string \<Rightarrow> descriptor_with_parent option" where
  "lookup_id res i = find (\<lambda>e. sec_id e = i) res"

fun ancestors :: "nat \<Rightarrow> descriptor_with_parent list \<Rightarrow> descriptor_with_parent \<Rightarrow> descriptor_with_parent list option" where
  "ancestors 0 res d = (case parentId d of None \<Rightarrow> Some [] | Some p \<Rightarrow> None)"
| "ancestors (Suc n) res d =
     (case parentId d of
        None \<Rightarrow> Some []
      | Some p \<Rightarrow>
          (case lookup_id res p of
             None \<Rightarrow> None
           | Some e \<Rightarrow> map_option ((#) e) (ancestors n res e)))"

text \<open>A small template: levels 1, 2, 3, 2.\<close>

definition example_template :: "descriptor list" where
  "example_template =
     [\<lparr>sec_id = ''a'', level = 1, title = ''1 Introduction'', placeholder = None, order_no = 1, isTitle = False\<rparr>,
      \<lparr>sec_id = ''b'', level = 2, title = ''1.1 Scope'', placeholder = None, order_no = 2, isTitle = False\<rparr>,
      \<lparr>sec_id = ''c'', level = 3, title = ''1.1.1 Limits'', placeholder = None, order_no = 3, isTitle = False\<rparr>,
      \<lparr>sec_id = ''d'', level = 2, title = ''1.2 Method'', placeholder = None, order_no = 4, isTitle = False\<rparr>]"

subsection \<open>The stack holds the nearest lower-level descriptors\<close>

lemma pop_stack_find:
  "stack_top_id (pop_stack st l) = map_option snd (find (\<lambda>e. fst e < l) st)"
  by (induction st l rule: pop_stack.induct) (auto simp: stack_top_id_def)

lemma pop_stack_find_lower:
  "l' \<le> l \<Longrightarrow> find (\<lambda>e. fst e < l') (pop_stack st l) = find (\<lambda>e. fst e < l') st"
  by (induction st l rule: pop_stack.induct) auto

definition stack_inv :: "(int \<times> string) list \<Rightarrow> descriptor list \<Rightarrow> bool" where
  "stack_inv st before \<longleftrightarrow>
     (\<forall>l. map_option snd (find (\<lambda>e. fst e < l) st) = nearest_lower before l)"

lemma stack_inv_step:
  assumes "stack_inv st before"
  shows "stack_inv ((level s, sec_id s) # pop_stack st (level s)) (before @ [s])"
  unfolding stack_inv_def
proof
  fix l
  show "map_option snd (find (\<lambda>e. fst e < l) ((level s, sec_id s) # pop_stack st (level s)))
        = nearest_lower (before @ [s]) l"
  proof (cases "level s < l")
    case True
    then show ?thesis by (simp add: nearest_lower_def)
  next
    case False
    then have "l \<le> level s" by simp
    from pop_stack_find_lower[OF this] assms False show ?thesis
      by (simp add: nearest_lower_def stack_inv_def)
  qed
qed

lemma loop_length: "length (buildHierarchy_loop st xs) = length xs"
  by (induction xs arbitrary: st) (auto simp: Let_def)

lemma strip_with_parent: "strip_parent (with_parent s p) = s"
  by (simp add: strip_parent_def with_parent_def descriptor.truncate_def descriptor.extend_def)

lemma loop_strip: "map strip_parent (buildHierarchy_loop st xs) = xs"
  by (induction xs arbitrary: st) (auto simp: Let_def strip_with_parent)

lemma parentId_with_parent: "parentId (with_parent s p) = p"
  by (simp add: with_parent_def descriptor.extend_def descriptor_with_parent.fields_def)

lemma loop_parent:
  assumes "stack_inv st before" "i < length xs"
  shows "parentId (buildHierarchy_loop st xs ! i) = nearest_lower (before @ take i xs) (level (xs ! i))"
  using assms
proof (induction xs arbitrary: st before i)
  case Nil
  then show ?case by simp
next
  case (Cons s ss)
  show ?case
  proof (cases i)
    case 0
    with Cons.prems show ?thesis
      by (simp add: Let_def parentId_with_parent pop_stack_find stack_inv_def)
  next
    case (Suc j)
    with Cons.prems have j: "j < length ss" by simp
    from Cons.IH[OF stack_inv_step[OF Cons.prems(1)] j, of s] Suc show ?thesis
      by (simp add: Let_def)
  qed
qed

lemma with_parent_fields [simp]:
  "sec_id (with_parent s p) = sec_id s" "level (with_parent s p) = level s"
  by (simp_all add: with_parent_def descriptor.extend_def)

lemma buildHierarchy_nth:
  assumes "i < length xs"
  shows "buildHierarchy xs ! i = with_parent (xs ! i) (nearest_lower (take i xs) (level (xs ! i)))"
proof -
  have inv: "stack_inv [] []" by (simp add: stack_inv_def nearest_lower_def)
  have "parentId (buildHierarchy xs ! i) = nearest_lower (take i xs) (level (xs ! i))"
    using loop_parent[OF inv assms] by (simp add: buildHierarchy_def)
  moreover have "strip_parent (buildHierarchy xs ! i) = xs ! i"
    using assms loop_strip[of "[]" xs] loop_length[of "[]" xs]
    by (metis buildHierarchy_def nth_map)
  moreover have "d = with_parent (strip_parent d) (parentId d)" for d :: descriptor_with_parent
    by (cases d) (simp add: with_parent_def strip_parent_def descriptor.extend_def
        descriptor.truncate_def descriptor_with_parent.fields_def)
  ultimately show ?thesis by metis
qed

lemma find_rev_take:
  assumes "find P (rev (take i xs)) = Some e" "i \<le> length xs"
  shows "\<exists>j<i. e = xs ! j \<and> P e"
proof -
  from assms(1) obtain k where k: "k < length (rev (take i xs))" "P (rev (take i xs) ! k)"
    "e = rev (take i xs) ! k"
    by (auto simp: find_Some_iff)
  with assms(2) have "k < i" by simp
  with k assms(2) have "e = xs ! (i - Suc k)"
    by (simp add: rev_nth)
  with k \<open>k < i\<close> show ?thesis by (intro exI[of _ "i - Suc k"]) auto
qed

lemma lookup_id_distinct:
  assumes "distinct (map sec_id xs)" "j < length xs"
  shows "lookup_id (buildHierarchy xs) (sec_id (xs ! j)) = Some (buildHierarchy xs ! j)"
proof -
  let ?res = "buildHierarchy xs"
  have len: "length ?res = length xs" by (simp add: buildHierarchy_def loop_length)
  have ids: "sec_id (?res ! k) = sec_id (xs ! k)" if "k < length xs" for k
    using that by (simp add: buildHierarchy_nth)
  have "\<forall>k<j. sec_id (?res ! k) \<noteq> sec_id (xs ! j)"
  proof (intro allI impI)
    fix k assume "k < j"
    with assms have "sec_id (xs ! k) \<noteq> sec_id (xs ! j)"
      by (auto simp: distinct_conv_nth)
    with \<open>k < j\<close> assms(2) show "sec_id (?res ! k) \<noteq> sec_id (xs ! j)" by (simp add: ids)
  qed
  with assms(2) len ids show ?thesis
    unfolding lookup_id_def find_Some_iff by (intro exI[of _ j]) auto
qed

lemma ancestors_chain:
  assumes d: "distinct (map sec_id xs)"
  shows "i < length xs \<Longrightarrow> i \<le> fuel \<Longrightarrow>
     \<exists>ch. ancestors fuel (buildHierarchy xs) (buildHierarchy xs ! i) = Some ch
        \<and> (\<forall>e\<in>set ch. level e < level (xs ! i) \<and> (\<exists>j<i. e = buildHierarchy xs ! j))
        \<and> sorted_wrt (>) (map level ch)
        \<and> (ch \<noteq> [] \<longrightarrow> parentId (last ch) = None)"
proof (induction i arbitrary: fuel rule: less_induct)
  case (less i)
  let ?res = "buildHierarchy xs"
  have nth: "?res ! i = with_parent (xs ! i) (nearest_lower (take i xs) (level (xs ! i)))"
    using less.prems by (simp add: buildHierarchy_nth)
  show ?case
  proof (cases "nearest_lower (take i xs) (level (xs ! i))")
    case None
    then have "parentId (?res ! i) = None" by (simp add: nth parentId_with_parent)
    then show ?thesis by (cases fuel) auto
  next
    case (Some p)
    then obtain e where e: "find (\<lambda>e. level e < level (xs ! i)) (rev (take i xs)) = Some e" "p = sec_id e"
      by (auto simp: nearest_lower_def)
    from find_rev_take[OF e(1)] less.prems obtain j where j: "j < i" "e = xs ! j" "level (xs ! j) < level (xs ! i)"
      by auto
    from j less.prems obtain n where n: "fuel = Suc n" "j \<le> n" by (cases fuel) auto
    have jl: "j < length xs" using j less.prems by simp
    from less.IH[OF j(1) jl n(2)] obtain ch' where ch':
      "ancestors n ?res (?res ! j) = Some ch'"
      "\<forall>e\<in>set ch'. level e < level (xs ! j) \<and> (\<exists>k<j. e = ?res ! k)"
      "sorted_wrt (>) (map level ch')"
      "ch' \<noteq> [] \<longrightarrow> parentId (last ch') = None"
      by blast
    have pid: "parentId (?res ! i) = Some (sec_id (xs ! j))"
      using Some e j by (simp add: nth parentId_with_parent)
    have lk: "lookup_id ?res (sec_id (xs ! j)) = Some (?res ! j)"
      by (rule lookup_id_distinct[OF d jl])
    have anc: "ancestors fuel ?res (?res ! i) = Some (?res ! j # ch')"
      using pid lk ch'(1) n(1) by simp
    have lj: "level (?res ! j) = level (xs ! j)" using jl by (simp add: buildHierarchy_nth)
    have 1: "\<forall>e\<in>set (?res ! j # ch'). level e < level (xs ! i) \<and> (\<exists>k<i. e = ?res ! k)"
      using ch'(2) j lj by (auto intro: less_trans)
    have 2: "sorted_wrt (>) (map level (?res ! j # ch'))"
      using ch'(2,3) lj by auto
    have 3: "parentId (last (?res ! j # ch')) = None"
    proof (cases "ch' = []")
      case True
      with ch'(1) show ?thesis by (cases n) (auto split: option.splits)
    next
      case False
      with ch'(4) show ?thesis by simp
    qed
    from anc 1 2 3 show ?thesis by blast
  qed
qed

text \<open>
  Claim C1. For every flat list of descriptors, \<^verbatim>\<open>buildHierarchy\<close> returns the
  descriptors unchanged and in the same order, each with a \<^verbatim>\<open>parentId\<close>: the id of the
  nearest preceding descriptor of strictly lower level, or \<^verbatim>\<open>null\<close> when there is none.
  When the ids are pairwise different (they are generated UUIDs), following the parent
  links from any descriptor reaches a root within \<open>length xs\<close> steps, the levels along
  the chain strictly decrease, and the descriptor's own id does not occur in its chain.
\<close>

theorem buildHierarchy_forest:
  "map strip_parent (buildHierarchy xs) = xs
   \<and> (\<forall>i<length xs.
         parentId (buildHierarchy xs ! i) = nearest_lower (take i xs) (level (xs ! i)))
   \<and> (distinct (map sec_id xs) \<longrightarrow>
        (\<forall>d\<in>set (buildHierarchy xs).
           \<exists>ch. ancestors (length xs) (buildHierarchy xs) d = Some ch
              \<and> sorted_wrt (>) (map level (d # ch))
              \<and> parentId (last (d # ch)) = None
              \<and> sec_id d \<notin> sec_id ` set ch))"
proof (intro conjI allI impI ballI)
  show "map strip_parent (buildHierarchy xs) = xs"
    by (simp add: buildHierarchy_def loop_strip)
next
  fix i assume "i < length xs"
  then show "parentId (buildHierarchy xs ! i) = nearest_lower (take i xs) (level (xs ! i))"
    by (simp add: buildHierarchy_nth parentId_with_parent)
next
  fix d
  assume dist: "distinct (map sec_id xs)" and "d \<in> set (buildHierarchy xs)"
  let ?res = "buildHierarchy xs"
  have len: "length ?res = length xs" by (simp add: buildHierarchy_def loop_length)
  from \<open>d \<in> set ?res\<close> len obtain i where i: "i < length xs" "d = ?res ! i"
    by (auto simp: in_set_conv_nth)
  from ancestors_chain[OF dist i(1), of "length xs"] i(1) obtain ch where ch:
    "ancestors (length xs) ?res (?res ! i) = Some ch"
    "\<forall>e\<in>set ch. level e < level (xs ! i) \<and> (\<exists>j<i. e = ?res ! j)"
    "sorted_wrt (>) (map level ch)"
    "ch \<noteq> [] \<longrightarrow> parentId (last ch) = None"
    by auto
  have li: "level d = level (xs ! i)" "sec_id d = sec_id (xs ! i)"
    using i by (simp_all add: buildHierarchy_nth)
  have 1: "sorted_wrt (>) (map level (d # ch))"
    using ch(2,3) li by auto
  have 2: "parentId (last (d # ch)) = None"
  proof (cases "ch = []")
    case True
    with ch(1) i(2) show ?thesis by (cases "length xs") (auto split: option.splits)
  next
    case False
    with ch(4) show ?thesis by simp
  qed
  have 3: "sec_id d \<notin> sec_id ` set ch"
  proof
    assume "sec_id d \<in> sec_id ` set ch"
    then obtain e where e: "e \<in> set ch" "sec_id e = sec_id d" by auto
    with ch(2) obtain j where j: "j < i" "e = ?res ! j" by auto
    with i(1) have "sec_id e = sec_id (xs ! j)" by (simp add: buildHierarchy_nth)
    with e li have "sec_id (xs ! j) = sec_id (xs ! i)" by simp
    with dist j(1) i(1) show False by (auto simp: distinct_conv_nth)
  qed
  from ch(1) i(2) 1 2 3
  show "\<exists>ch. ancestors (length xs) ?res d = Some ch
              \<and> sorted_wrt (>) (map level (d # ch))
              \<and> parentId (last (d # ch)) = None
              \<and> sec_id d \<notin> sec_id ` set ch"
    by blast
qed

theorem buildHierarchy_forest_witness:
  "distinct (map sec_id example_template)
   \<and> map parentId (buildHierarchy example_template) = [None, Some ''a'', Some ''b'', Some ''a'']
   \<and> (\<exists>ch. ancestors 4 (buildHierarchy example_template) (buildHierarchy example_template ! 2) = Some ch
            \<and> sorted_wrt (>) (map level (buildHierarchy example_template ! 2 # ch))
            \<and> parentId (last (buildHierarchy example_template ! 2 # ch)) = None
            \<and> ''c'' \<notin> sec_id ` set ch)"
proof -
  have d: "distinct (map sec_id example_template)"
    by (simp add: example_template_def)
  have l: "length example_template = 4"
    by (simp add: example_template_def)
  have p: "map parentId (buildHierarchy example_template) = [None, Some ''a'', Some ''b'', Some ''a'']"
    by (simp add: example_template_def buildHierarchy_def Let_def stack_top_id_def
        parentId_with_parent)
  have "length (buildHierarchy example_template) = 4"
    using l by (simp add: buildHierarchy_def loop_length)
  then have m: "buildHierarchy example_template ! 2 \<in> set (buildHierarchy example_template)"
    by simp
  have i: "sec_id (buildHierarchy example_template ! 2) = ''c''"
    using l by (simp add: buildHierarchy_nth) (simp add: example_template_def)
  from buildHierarchy_forest[of example_template] d m
  have "\<exists>ch. ancestors 4 (buildHierarchy example_template) (buildHierarchy example_template ! 2) = Some ch
            \<and> sorted_wrt (>) (map level (buildHierarchy example_template ! 2 # ch))
            \<and> parentId (last (buildHierarchy example_template ! 2 # ch)) = None
            \<and> sec_id (buildHierarchy example_template ! 2) \<notin> sec_id ` set ch"
    unfolding l by blast
  with d p i show ?thesis by simp
qed

section \<open>Strings\<close>

text \<open>
  A JavaScript string is a sequence of code units; the model works on \<^typ>\<open>string\<close>,
  that is on the code units below 256. Among them the white space of \<^verbatim>\<open>\s\<close> and of
  \<^verbatim>\<open>trim()\<close> is tab, line feed, vertical tab, form feed, carriage return, space and
  the no-break space; \<^verbatim>\<open>\w\<close> is a letter, a digit or the underscore.
\<close>

definition LF :: char where
  "LF = CHR 0x0A"

definition is_space :: "char \<Rightarrow> bool" where
  "is_space c \<longleftrightarrow> c \<in> {CHR 0x09, CHR 0x0A, CHR 0x0B, CHR 0x0C, CHR 0x0D, CHR 0x20, CHR 0xA0}"

definition is_digit :: "char \<Rightarrow> bool" where
  "is_digit c \<longleftrightarrow> (48::nat) \<le> of_char c \<and> of_char c \<le> (57::nat)"

definition is_upper :: "char \<Rightarrow> bool" where
  "is_upper c \<longleftrightarrow> (65::nat) \<le> of_char c \<and> of_char c \<le> (90::nat)"

definition is_lower :: "char \<Rightarrow> bool" where
  "is_lower c \<longleftrightarrow> (97::nat) \<le> of_char c \<and> of_char c \<le> (122::nat)"

definition is_word :: "char \<Rightarrow> bool" where
  "is_word c \<longleftrightarrow> is_upper c \<or> is_lower c \<or> is_digit c \<or> c = CHR ''_''"

text \<open>
  The canonical form the \<^verbatim>\<open>i\<close> flag compares: a lower-case ASCII letter becomes its
  capital; no other code unit below 256 is folded onto an ASCII letter.
\<close>

definition canon :: "char \<Rightarrow> char" where
  "canon c =
     (case map_of (zip ''abcdefghijklmnopqrstuvwxyz'' ''ABCDEFGHIJKLMNOPQRSTUVWXYZ'') c of
        Some capital \<Rightarrow> capital
      | None \<Rightarrow> c)"

definition ci_prefix :: "string \<Rightarrow> string \<Rightarrow> bool" where
  "ci_prefix p s \<longleftrightarrow> map canon (take (length p) s) = map canon p"

definition trim :: "string \<Rightarrow> string" where
  "trim s = rev (dropWhile is_space (rev (dropWhile is_space s)))"

text \<open>\<^verbatim>\<open>s.substring(i, j)\<close> for \<open>i \<le> j\<close>.\<close>

definition substring :: "string \<Rightarrow> nat \<Rightarrow> nat \<Rightarrow> string" where
  "substring s i j = take (j - i) (drop i s)"

text \<open>
  The first occurrence of a separator: the text before it and the text after it.
\<close>

fun break_on :: "string \<Rightarrow> string \<Rightarrow> (string \<times> string) option" where
  "break_on sep [] = None"
| "break_on sep (c # cs) =
     (if take (length sep) (c # cs) = sep then Some ([], drop (length sep) (c # cs))
      else map_option (\<lambda>(b, a). (c # b, a)) (break_on sep cs))"

lemma break_on_shorter:
  "break_on sep s = Some (b, a) \<Longrightarrow> sep \<noteq> [] \<Longrightarrow> length a < length s"
proof (induction s arbitrary: b)
  case Nil
  then show ?case by simp
next
  case (Cons c cs)
  show ?case
  proof (cases "take (length sep) (c # cs) = sep")
    case True
    with Cons.prems show ?thesis by (cases sep) auto
  next
    case False
    with Cons.prems obtain b' where "break_on sep cs = Some (b', a)" by auto
    from Cons.IH[OF this Cons.prems(2)] show ?thesis by simp
  qed
qed

text \<open>
  \<^verbatim>\<open>s.split(sep)\<close> for a non-empty separator string: cut at each occurrence, left to
  right, occurrences not overlapping. (The source never splits on the empty string.)
\<close>

function split_on :: "string \<Rightarrow> string \<Rightarrow> string list" where
  "split_on sep s =
     (if sep = [] then [s]
      else (case break_on sep s of
              None \<Rightarrow> [s]
            | Some (b, a) \<Rightarrow> b # split_on sep a))"
  by pat_completeness auto
termination
  by (relation "measure (\<lambda>(sep, s). length s)") (auto dest: break_on_shorter)

declare split_on.simps [simp del]

text \<open>\<^verbatim>\<open>parts.join(sep)\<close>.\<close>

fun join :: "string \<Rightarrow> string list \<Rightarrow> string" where
  "join sep [] = []"
| "join sep [x] = x"
| "join sep (x # y # ys) = x @ sep @ join sep (y # ys)"

section \<open>Inline emphasis: the two parsers\<close>

text \<open>
  Both parsers run the regular expression \<^verbatim>\<open>/(\*\*([^*]+)\*\*|\*([^*]+)\*)/g\<close>.
  A match anchored at the head of a string: the first alternative is two stars, the
  longest non-empty run without a star, two stars; the second is the same with single
  stars. The run cannot be shortened, since the character after a shorter run is not a
  star. The result is the length of \<^verbatim>\<open>match[0]\<close> with the captures \<^verbatim>\<open>match[2]\<close>
  and \<^verbatim>\<open>match[3]\<close> (\<open>None\<close> for \<^verbatim>\<open>undefined\<close>).
\<close>

record regex_match =
  m_index :: nat
  m_length :: nat
  m_group2 :: "string option"
  m_group3 :: "string option"

definition match_emphasis_here :: "string \<Rightarrow> (nat \<times> string option \<times> string option) option" where
  "match_emphasis_here s =
     (let inner2 = takeWhile (\<lambda>c. c \<noteq> CHR ''*'') (drop 2 s);
          inner1 = takeWhile (\<lambda>c. c \<noteq> CHR ''*'') (drop 1 s)
      in if take 2 s = ''**'' \<and> inner2 \<noteq> [] \<and> take 2 (drop (2 + length inner2) s) = ''**''
         then Some (length inner2 + 4, Some inner2, None)
         else if take 1 s = ''*'' \<and> inner1 \<noteq> [] \<and> take 1 (drop (1 + length inner1) s) = ''*''
         then Some (length inner1 + 2, None, Some inner1)
         else None)"

text \<open>\<^verbatim>\<open>pattern.exec(text)\<close> with \<^verbatim>\<open>pattern.lastIndex = i\<close>: the leftmost match at or after \<open>i\<close>.\<close>

function exec_emphasis :: "string \<Rightarrow> nat \<Rightarrow> regex_match option" where
  "exec_emphasis text i =
     (if length text \<le> i then None
      else (case match_emphasis_here (drop i text) of
              Some (n, g2, g3) \<Rightarrow> Some \<lparr>m_index = i, m_length = n, m_group2 = g2, m_group3 = g3\<rparr>
            | None \<Rightarrow> exec_emphasis text (Suc i)))"
  by pat_completeness auto
termination
  by (relation "measure (\<lambda>(text, i). length text - i)") auto

declare exec_emphasis.simps [simp del]

text \<open>A string is truthy when it is defined and not empty.\<close>

definition truthy :: "string option \<Rightarrow> bool" where
  "truthy g \<longleftrightarrow> (case g of None \<Rightarrow> False | Some v \<Rightarrow> v \<noteq> [])"

lemma match_emphasis_here_bounds:
  assumes "match_emphasis_here s = Some (n, g2, g3)"
  shows "0 < n \<and> n \<le> length s"
proof -
  let ?i2 = "takeWhile (\<lambda>c. c \<noteq> CHR ''*'') (drop 2 s)"
  let ?i1 = "takeWhile (\<lambda>c. c \<noteq> CHR ''*'') (drop 1 s)"
  have len2: "take 2 (drop (2 + length ?i2) s) = ''**'' \<Longrightarrow> length ?i2 + 4 \<le> length s"
  proof -
    assume "take 2 (drop (2 + length ?i2) s) = ''**''"
    then have "length (take 2 (drop (2 + length ?i2) s)) = 2" by simp
    then show ?thesis by (simp add: min_def split: if_splits)
  qed
  have len1: "take 1 (drop (1 + length ?i1) s) = ''*'' \<Longrightarrow> length ?i1 + 2 \<le> length s"
  proof -
    assume "take 1 (drop (1 + length ?i1) s) = ''*''"
    then have "length (take 1 (drop (1 + length ?i1) s)) = 1" by simp
    then show ?thesis by (simp add: min_def split: if_splits)
  qed
  from assms len1 len2 show ?thesis
    unfolding match_emphasis_here_def Let_def by (auto split: if_splits)
qed

lemma exec_emphasis_bounds:
  "exec_emphasis t i = Some m \<Longrightarrow>
     i \<le> m_index m \<and> 0 < m_length m \<and> m_index m + m_length m \<le> length t"
proof (induction t i rule: exec_emphasis.induct)
  case (1 t i)
  show ?case
  proof (cases "length t \<le> i")
    case True
    with "1.prems" show ?thesis by (simp add: exec_emphasis.simps)
  next
    case False
    show ?thesis
    proof (cases "match_emphasis_here (drop i t)")
      case None
      with False "1.prems" have "exec_emphasis t (Suc i) = Some m"
        by (simp add: exec_emphasis.simps[of t i])
      from "1.IH"[OF False None this] show ?thesis by simp
    next
      case (Some r)
      obtain n g2 g3 where r: "r = (n, g2, g3)" by (cases r)
      from match_emphasis_here_bounds[of "drop i t" n g2 g3] Some r
      have "0 < n \<and> n \<le> length t - i" by simp
      with False Some r "1.prems" show ?thesis
        by (auto simp: exec_emphasis.simps[of t i])
    qed
  qed
qed

subsection \<open>The DOCX writer's parser\<close>

text \<open>
  A \<^verbatim>\<open>TextRun\<close> of the docx library: its text and the two options the writer sets
  (an option that is not given is off).
\<close>

record text_run =
  run_text :: string
  run_bold :: bool
  run_italics :: bool

definition TextRun :: "string \<Rightarrow> text_run" where
  "TextRun t = \<lparr>run_text = t, run_bold = False, run_italics = False\<rparr>"

function parseFormattedText_loop :: "string \<Rightarrow> nat \<Rightarrow> text_run list \<Rightarrow> nat \<times> text_run list" where
  "parseFormattedText_loop text lastIndex runs =
     (case exec_emphasis text lastIndex of
        None \<Rightarrow> (lastIndex, runs)
      | Some m \<Rightarrow>
          (let runs1 = (if m_index m > lastIndex
                        then runs @ [TextRun (substring text lastIndex (m_index m))]
                        else runs);
               runs2 = (if truthy (m_group2 m)
                        then runs1 @ [\<lparr>run_text = the (m_group2 m), run_bold = True, run_italics = False\<rparr>]
                        else if truthy (m_group3 m)
                        then runs1 @ [\<lparr>run_text = the (m_group3 m), run_bold = False, run_italics = True\<rparr>]
                        else runs1)
           in parseFormattedText_loop text (m_index m + m_length m) runs2))"
  by pat_completeness auto
termination
  by (relation "measure (\<lambda>(text, lastIndex, runs). length text - lastIndex)")
     (auto dest!: exec_emphasis_bounds)

declare parseFormattedText_loop.simps [simp del]

definition parseFormattedText :: "string \<Rightarrow> text_run list" where
  "parseFormattedText text =
     (let (lastIndex, runs) = parseFormattedText_loop text 0 [];
          runs1 = (if lastIndex < length text
                   then runs @ [TextRun (substring text lastIndex (length text))]
                   else runs)
      in if length runs1 = 0 then runs1 @ [TextRun text] else runs1)"

subsection \<open>The draft service's parser\<close>

text \<open>
  A node of the ProseMirror-compatible tree. A text node carries its text and its
  marks (no \<^verbatim>\<open>marks\<close> key is the empty list); any other node carries its type, its
  attributes and, when it has one, its \<^verbatim>\<open>content\<close> array.
\<close>

datatype mark = BoldMark | ItalicMark

datatype node_type =
  DocType | SectionType | HeadingType | ParagraphType | TableType | TableRowType
  | TableHeaderType | TableCellType | BulletListType | OrderedListType | ListItemType

record node_attrs =
  attr_id :: "string option"
  attr_title :: "string option"
  attr_level :: "nat option"

datatype node =
  TextNode string "mark list"
  | Elem node_type "node_attrs option" "node list option"

function parseInlineFormatting_loop :: "string \<Rightarrow> nat \<Rightarrow> node list \<Rightarrow> nat \<times> node list" where
  "parseInlineFormatting_loop text lastIndex nodes =
     (case exec_emphasis text lastIndex of
        None \<Rightarrow> (lastIndex, nodes)
      | Some m \<Rightarrow>
          (let nodes1 = (if m_index m > lastIndex
                         then nodes @ [TextNode (substring text lastIndex (m_index m)) []]
                         else nodes);
               nodes2 = (if truthy (m_group2 m)
                         then nodes1 @ [TextNode (the (m_group2 m)) [BoldMark]]
                         else if truthy (m_group3 m)
                         then nodes1 @ [TextNode (the (m_group3 m)) [ItalicMark]]
                         else nodes1)
           in parseInlineFormatting_loop text (m_index m + m_length m) nodes2))"
  by pat_completeness auto
termination
  by (relation "measure (\<lambda>(text, lastIndex, nodes). length text - lastIndex)")
     (auto dest!: exec_emphasis_bounds)

declare parseInlineFormatting_loop.simps [simp del]

definition parseInlineFormatting :: "string \<Rightarrow> node list" where
  "parseInlineFormatting text =
     (let (lastIndex, nodes) = parseInlineFormatting_loop text 0 [];
          nodes1 = (if lastIndex < length text
                    then nodes @ [TextNode (substring text lastIndex (length text)) []]
                    else nodes)
      in if length nodes1 = 0 then nodes1 @ [TextNode text []] else nodes1)"

text \<open>What a run is for the reader: its text, whether it is bold, whether it is italic.\<close>

definition run_marking :: "text_run \<Rightarrow> string \<times> bool \<times> bool" where
  "run_marking r = (run_text r, run_bold r, run_italics r)"

fun node_marking :: "node \<Rightarrow> (string \<times> bool \<times> bool) option" where
  "node_marking (TextNode t ms) = Some (t, BoldMark \<in> set ms, ItalicMark \<in> set ms)"
| "node_marking (Elem ty a c) = None"

subsection \<open>The two parsers give the same runs\<close>

lemma loops_agree:
  assumes "map node_marking ns = map (Some \<circ> run_marking) rs"
  shows "fst (parseInlineFormatting_loop t i ns) = fst (parseFormattedText_loop t i rs)
       \<and> map node_marking (snd (parseInlineFormatting_loop t i ns))
         = map (Some \<circ> run_marking) (snd (parseFormattedText_loop t i rs))"
  using assms
proof (induction t i ns arbitrary: rs rule: parseInlineFormatting_loop.induct)
  case (1 t i ns)
  show ?case
  proof (cases "exec_emphasis t i")
    case None
    with "1.prems" show ?thesis
      by (simp add: parseInlineFormatting_loop.simps[of t i] parseFormattedText_loop.simps[of t i])
  next
    case (Some m)
    define ns1 where "ns1 = (if m_index m > i then ns @ [TextNode (substring t i (m_index m)) []] else ns)"
    define ns2 where "ns2 = (if truthy (m_group2 m) then ns1 @ [TextNode (the (m_group2 m)) [BoldMark]]
                         else if truthy (m_group3 m) then ns1 @ [TextNode (the (m_group3 m)) [ItalicMark]]
                         else ns1)"
    define rs1 where "rs1 = (if m_index m > i then rs @ [TextRun (substring t i (m_index m))] else rs)"
    define rs2 where "rs2 = (if truthy (m_group2 m)
                        then rs1 @ [\<lparr>run_text = the (m_group2 m), run_bold = True, run_italics = False\<rparr>]
                        else if truthy (m_group3 m)
                        then rs1 @ [\<lparr>run_text = the (m_group3 m), run_bold = False, run_italics = True\<rparr>]
                        else rs1)"
    have e1: "map node_marking ns1 = map (Some \<circ> run_marking) rs1"
      using "1.prems" by (simp add: ns1_def rs1_def run_marking_def TextRun_def)
    have e2: "map node_marking ns2 = map (Some \<circ> run_marking) rs2"
      using e1 by (simp add: ns2_def rs2_def run_marking_def)
    have l: "parseInlineFormatting_loop t i ns = parseInlineFormatting_loop t (m_index m + m_length m) ns2"
      using Some by (simp add: parseInlineFormatting_loop.simps[of t i] Let_def ns1_def ns2_def)
    have r: "parseFormattedText_loop t i rs = parseFormattedText_loop t (m_index m + m_length m) rs2"
      using Some by (simp add: parseFormattedText_loop.simps[of t i] Let_def rs1_def rs2_def)
    from "1.IH"[OF Some ns1_def ns2_def e2] show ?thesis
      by (simp only: l r)
  qed
qed

text \<open>
  Claim C10. For every input string, \<^verbatim>\<open>parseInlineFormatting\<close> (draft ingestion) and
  \<^verbatim>\<open>parseFormattedText\<close> (DOCX writer) produce the same segmentation: the same number
  of runs, every run of the former a text node, and at each position the same text with
  the same bold and italic marking.
\<close>

theorem inline_parsers_agree:
  "length (parseInlineFormatting t) = length (parseFormattedText t)
   \<and> map node_marking (parseInlineFormatting t) = map (Some \<circ> run_marking) (parseFormattedText t)"
proof -
  obtain j ns where n: "parseInlineFormatting_loop t 0 [] = (j, ns)"
    by (cases "parseInlineFormatting_loop t 0 []")
  obtain k rs where r: "parseFormattedText_loop t 0 [] = (k, rs)"
    by (cases "parseFormattedText_loop t 0 []")
  from loops_agree[of "[]" "[]" t 0] n r
  have jk: "j = k" and m: "map node_marking ns = map (Some \<circ> run_marking) rs"
    by simp_all
  then have len: "length ns = length rs" by (metis length_map)
  have "map node_marking (parseInlineFormatting t) = map (Some \<circ> run_marking) (parseFormattedText t)"
    using jk m len
    by (auto simp: parseInlineFormatting_def parseFormattedText_def n r Let_def run_marking_def TextRun_def)
  then show ?thesis by (metis length_map)
qed

section \<open>The markdown table parser of the DOCX writer\<close>

text \<open>
  \<^verbatim>\<open>tableText.trim().split('\n').filter((line) => line.trim())\<close>: the lines that are
  not blank.
\<close>

definition nonblank_lines :: "string \<Rightarrow> string list" where
  "nonblank_lines t = filter (\<lambda>line. trim line \<noteq> []) (split_on [LF] (trim t))"

text \<open>\<^verbatim>\<open>cell.match(/^-+$/)\<close>: the cell is one or more dashes and nothing else.\<close>

definition all_dashes :: "string \<Rightarrow> bool" where
  "all_dashes cell \<longleftrightarrow> cell \<noteq> [] \<and> list_all (\<lambda>c. c = CHR ''-'') cell"

definition parseRow :: "string \<Rightarrow> string list" where
  "parseRow line = filter (\<lambda>cell. cell \<noteq> [] \<and> \<not> all_dashes cell) (map trim (split_on ''|'' line))"

record table_data =
  headers :: "string list"
  rows :: "string list list"

definition parseMarkdownTable :: "string \<Rightarrow> table_data option" where
  "parseMarkdownTable tableText =
     (let lines = nonblank_lines tableText
      in if length lines < 2 then None
         else (let hs = parseRow (lines ! 0);
                   dataStartIndex = (if CHR ''-'' \<in> set (lines ! 1) then 2 else 1)
               in Some \<lparr>headers = hs, rows = map parseRow (drop dataStartIndex lines)\<rparr>))"




subsection \<open>Trimming\<close>

lemma trim_ends:
  "trim s \<noteq> [] \<Longrightarrow> \<not> is_space (hd (trim s)) \<and> \<not> is_space (last (trim s))"
proof -
  assume ne: "trim s \<noteq> []"
  let ?u = "dropWhile is_space s"
  let ?v = "dropWhile is_space (rev ?u)"
  from ne have v: "?v \<noteq> []" by (simp add: trim_def)
  then have hv: "\<not> is_space (hd ?v)" by (rule hd_dropWhile)
  have u: "?u \<noteq> []"
  proof
    assume "?u = []"
    then have "?v = []" by (simp only: rev.simps dropWhile.simps)
    with v show False by simp
  qed
  then have hu: "\<not> is_space (hd ?u)" by (rule hd_dropWhile)
  have l: "last (trim s) = hd ?v" using v by (simp add: trim_def last_rev)
  have "hd (trim s) = last ?v" using v by (simp add: trim_def hd_rev)
  also have "last ?v = last (rev ?u)" using v by (metis last_appendR takeWhile_dropWhile_id)
  also have "\<dots> = hd ?u" using u by (simp add: last_rev)
  finally show ?thesis using hu hv l by simp
qed


lemma trim_fixed:
  assumes "s = [] \<or> (\<not> is_space (hd s) \<and> \<not> is_space (last s))"
  shows "trim s = s"
proof (cases "s = []")
  case True
  then show ?thesis by (simp add: trim_def)
next
  case False
  with assms have h: "\<not> is_space (hd s)" and l: "\<not> is_space (last s)" by auto
  from False h have 1: "dropWhile is_space s = s" by (cases s) auto
  from False l have 2: "dropWhile is_space (rev s) = rev s" by (cases "rev s") (auto simp: last_rev hd_rev)
  show ?thesis by (simp add: trim_def 1 2)
qed

lemma trim_trim: "trim (trim s) = trim s"
  using trim_ends[of s] by (intro trim_fixed) auto

subsection \<open>Rows\<close>



section \<open>The DOCX writer\<close>

text \<open>
  The elements the writer hands to the docx library: paragraphs, given by the options
  the writer sets (an option it does not set is \<open>None\<close>), and tables, given by their
  rows.
\<close>

datatype heading_level = HEADING_1 | HEADING_2 | HEADING_3 | HEADING_4 | HEADING_5 | HEADING_6 | TITLE

datatype alignment_type = JUSTIFIED | LEFT | CENTER

datatype paragraph_child = Run text_run | PageBreak

record docx_paragraph =
  p_text :: "string option"
  p_heading :: "heading_level option"
  p_alignment :: "alignment_type option"
  p_children :: "paragraph_child list"
  p_bullet :: "nat option"
  p_spacing_before :: "nat option"
  p_spacing_after :: "nat option"
  p_indent :: "(nat \<times> nat) option"

record table_cell =
  cell_text :: string
  cell_bold :: bool
  cell_shading :: "string option"

record table_row =
  row_cells :: "table_cell list"
  row_tableHeader :: bool

datatype docx_element = Para docx_paragraph | Tbl "table_row list"

definition empty_paragraph :: docx_paragraph where
  "empty_paragraph =
     \<lparr>p_text = None, p_heading = None, p_alignment = None, p_children = [], p_bullet = None,
      p_spacing_before = None, p_spacing_after = None, p_indent = None\<rparr>"


definition createParagraph :: "string \<Rightarrow> alignment_type option \<Rightarrow> docx_paragraph" where
  "createParagraph t alignment =
     empty_paragraph
       \<lparr>p_children := map Run (parseFormattedText t),
        p_alignment := Some (case alignment of Some a \<Rightarrow> a | None \<Rightarrow> JUSTIFIED),
        p_spacing_after := Some 200\<rparr>"


definition createTable :: "table_data \<Rightarrow> table_row list" where
  "createTable tableData =
     (if length (headers tableData) > 0
      then [\<lparr>row_cells = map (\<lambda>header. \<lparr>cell_text = header, cell_bold = True, cell_shading = Some ''E0E0E0''\<rparr>)
                              (headers tableData),
             row_tableHeader = True\<rparr>]
      else [])
     @ map (\<lambda>row. \<lparr>row_cells = map (\<lambda>cell. \<lparr>cell_text = cell, cell_bold = False, cell_shading = None\<rparr>) row,
                    row_tableHeader = False\<rparr>)
           (rows tableData)"

text \<open>
  The list tests \<^verbatim>\<open>/^[-*]\s/\<close> and \<^verbatim>\<open>/^\d+\.\s/\<close>, and
  \<^verbatim>\<open>item.replace(/^[-*\d.]\s*/, '')\<close>, which removes one leading character of the
  class and the white space after it.
\<close>

definition starts_bullet :: "string \<Rightarrow> bool" where
  "starts_bullet s =
     (case s of c # d # rest \<Rightarrow> (c = CHR ''-'' \<or> c = CHR ''*'') \<and> is_space d | _ \<Rightarrow> False)"

definition starts_numbered :: "string \<Rightarrow> bool" where
  "starts_numbered s =
     (takeWhile is_digit s \<noteq> [] \<and>
      (case dropWhile is_digit s of c # d # rest \<Rightarrow> c = CHR ''.'' \<and> is_space d | _ \<Rightarrow> False))"

definition strip_list_marker :: "string \<Rightarrow> string" where
  "strip_list_marker item =
     (case item of
        [] \<Rightarrow> []
      | c # rest \<Rightarrow>
          if c = CHR ''-'' \<or> c = CHR ''*'' \<or> is_digit c \<or> c = CHR ''.''
          then dropWhile is_space rest else item)"

definition bulletParagraph :: "string \<Rightarrow> docx_paragraph" where
  "bulletParagraph t =
     empty_paragraph
       \<lparr>p_children := map Run (parseFormattedText t), p_bullet := Some 0, p_spacing_after := Some 100\<rparr>"

text \<open>One step of the loop of \<^verbatim>\<open>convertContentToDocx\<close>: the elements one chunk adds.\<close>

definition convert_paragraph :: "string \<Rightarrow> docx_element list" where
  "convert_paragraph para =
     (let trimmed = trim para;
          tableData = (if CHR ''|'' \<in> set trimmed \<and> length (split_on [LF] trimmed) > 1
                       then parseMarkdownTable trimmed else None)
      in case tableData of
           Some td \<Rightarrow> [Tbl (createTable td)]
         | None \<Rightarrow>
             if starts_bullet trimmed \<or> starts_numbered trimmed
             then map (\<lambda>t. Para (bulletParagraph t))
                    (filter (\<lambda>t. t \<noteq> []) (map (\<lambda>item. trim (strip_list_marker item)) (split_on [LF] trimmed)))
             else [Para (createParagraph trimmed None)])"

definition convertContentToDocx :: "string \<Rightarrow> docx_element list" where
  "convertContentToDocx content =
     concat (map convert_paragraph (filter (\<lambda>p. trim p \<noteq> []) (split_on [LF, LF] content)))"


record reference =
  formatted :: "string option"
  rawText :: "string option"

























subsection \<open>Headings and placeholders of the export\<close>





















section \<open>The draft service\<close>

text \<open>
  A provenance entry of \<^verbatim>\<open>section_sources\<close>. \<^verbatim>\<open>updateDraftSection\<close> writes the first five
  keys; \<^verbatim>\<open>markSectionsAsEdited\<close> adds the last two. A key that an entry does not have is
  \<open>None\<close>. A timestamp is the ISO string of \<^verbatim>\<open>new Date().toISOString()\<close>, handed to
  the model by its caller.
\<close>

type_synonym timestamp = string

record provenance =
  sourceDocuments :: "string list"
  sourceSections :: "string list"
  aiGenerated :: "bool option"
  prov_warnings :: "string list"
  generatedAt :: "timestamp option"
  manuallyEdited :: "bool option"
  lastEditedAt :: "timestamp option"

text \<open>
  A row of the \<^verbatim>\<open>drafts\<close> table. Its \<^verbatim>\<open>content\<close> is a document node; its
  \<^verbatim>\<open>section_sources\<close> maps a section id to its provenance entry (\<^verbatim>\<open>null\<close> is the
  empty map).
\<close>

record draft =
  draft_id :: string
  project_id :: string
  version :: nat
  content :: "node option"
  section_sources :: "string \<rightharpoonup> provenance"
  references :: "reference list"

text \<open>
  The errors the service throws, and the table as explicit state: its rows, and the
  error the database would answer a select or an update with, if any.
\<close>

datatype service_error =
  DraftNotFound
  | NoDraftForProject
  | FailedToGetDraft string
  | FailedToUpdateDraftSection string
  | FailedToSaveDraft string

record store =
  drafts :: "draft list"
  select_error :: "string option"
  update_error :: "string option"


text \<open>\<^verbatim>\<open>.order('version', { ascending: false }).limit(1)\<close>: a row of the highest version.\<close>

fun latest_version :: "draft list \<Rightarrow> draft option" where
  "latest_version [] = None"
| "latest_version (d # ds) =
     (case latest_version ds of
        None \<Rightarrow> Some d
      | Some e \<Rightarrow> if version e > version d then Some e else Some d)"

definition getDraftByProject :: "store \<Rightarrow> string \<Rightarrow> service_error + draft option" where
  "getDraftByProject db projectId =
     (case select_error db of
        Some msg \<Rightarrow> Inl (FailedToGetDraft msg)
      | None \<Rightarrow> Inr (latest_version (filter (\<lambda>d. project_id d = projectId) (drafts db))))"

definition update_rows :: "store \<Rightarrow> string \<Rightarrow> (draft \<Rightarrow> draft) \<Rightarrow> store" where
  "update_rows db draftId f = db\<lparr>drafts := map (\<lambda>d. if draft_id d = draftId then f d else d) (drafts db)\<rparr>"

text \<open>\<^verbatim>\<open>node.content\<close>, \<^verbatim>\<open>node.attrs?.id\<close> and \<^verbatim>\<open>draft.content?.content || []\<close>.\<close>

definition node_content :: "node \<Rightarrow> node list option" where
  "node_content n = (case n of TextNode t ms \<Rightarrow> None | Elem ty a c \<Rightarrow> c)"




text \<open>
  With the \<^verbatim>\<open>m\<close> flag, \<^verbatim>\<open>^\<close> matches at the start of the input and after a line
  terminator (line feed and carriage return, among the code units below 256).
\<close>

definition is_line_terminator :: "char \<Rightarrow> bool" where
  "is_line_terminator c \<longleftrightarrow> c = LF \<or> c = CHR 0x0D"

fun after_line_terminator :: "(string \<Rightarrow> bool) \<Rightarrow> string \<Rightarrow> bool" where
  "after_line_terminator P [] = False"
| "after_line_terminator P (c # cs) = ((is_line_terminator c \<and> P cs) \<or> after_line_terminator P cs)"

definition at_line_start :: "(string \<Rightarrow> bool) \<Rightarrow> string \<Rightarrow> bool" where
  "at_line_start P s \<longleftrightarrow> P s \<or> after_line_terminator P s"

definition plain_node :: "node_type \<Rightarrow> node list \<Rightarrow> node" where
  "plain_node ty cs = Elem ty None (Some cs)"

definition table_row_node :: "nat \<Rightarrow> string \<Rightarrow> node" where
  "table_row_node i line =
     (let cells = filter (\<lambda>cell. cell \<noteq> []) (map trim (split_on ''|'' line));
          isHeader = (i = 0)
      in plain_node TableRowType
           (map (\<lambda>cell. plain_node (if isHeader then TableHeaderType else TableCellType)
                          [plain_node ParagraphType [TextNode cell []]]) cells))"

definition parseMarkdownTableToNodes :: "string \<Rightarrow> node list" where
  "parseMarkdownTableToNodes tableText =
     map (\<lambda>(i, line). table_row_node i line)
       (filter (\<lambda>(i, line). break_on ''---'' line = None) (enumerate 0 (nonblank_lines tableText)))"

definition list_node :: "string \<Rightarrow> node" where
  "list_node para =
     (let listItems = filter (\<lambda>line. trim line \<noteq> []) (split_on [LF] para);
          isOrdered = (case listItems of [] \<Rightarrow> False | first # rest \<Rightarrow> starts_numbered first)
      in plain_node (if isOrdered then OrderedListType else BulletListType)
           (map (\<lambda>item. plain_node ListItemType
                    [plain_node ParagraphType [TextNode (trim (strip_list_marker item)) []]])
              listItems))"

text \<open>One step of the loop of \<^verbatim>\<open>convertContentToProseMirror\<close>: the node one chunk gives.\<close>

definition convert_chunk :: "string \<Rightarrow> node" where
  "convert_chunk para =
     (if CHR ''|'' \<in> set para \<and> length (split_on [LF] para) > 1
      then Elem TableType (Some \<lparr>attr_id = None, attr_title = None, attr_level = None\<rparr>)
             (Some (parseMarkdownTableToNodes para))
      else if at_line_start starts_bullet para \<or> at_line_start starts_numbered para
      then list_node para
      else plain_node ParagraphType (parseInlineFormatting (trim para)))"

definition convertContentToProseMirror :: "string \<Rightarrow> node list" where
  "convertContentToProseMirror c =
     (if c = [] then []
      else map convert_chunk (filter (\<lambda>p. trim p \<noteq> []) (split_on [LF, LF] c)))"

record section_data =
  sd_templateSectionId :: string
  sd_templateSectionTitle :: string
  sd_content :: string
  sd_sourceRefs :: "(string \<times> string list) list option"
  sd_warnings :: "string list option"

definition sectionNode :: "section_data \<Rightarrow> node" where
  "sectionNode sd =
     Elem SectionType
       (Some \<lparr>attr_id = Some (sd_templateSectionId sd), attr_title = Some (sd_templateSectionTitle sd),
              attr_level = None\<rparr>)
       (Some (Elem HeadingType
                (Some \<lparr>attr_id = Some (sd_templateSectionId sd), attr_title = None, attr_level = Some 1\<rparr>)
                (Some [TextNode (sd_templateSectionTitle sd) []])
              # convertContentToProseMirror (sd_content sd)))"




text \<open>
  \<^verbatim>\<open>markSectionsAsEdited\<close> reads the clock once per entry: \<open>clock key\<close> is the time read
  for the entry of \<open>key\<close>.
\<close>

definition markSectionsAsEdited ::
    "(string \<Rightarrow> timestamp) \<Rightarrow> (string \<rightharpoonup> 'a provenance_scheme) \<Rightarrow> (string \<rightharpoonup> 'a provenance_scheme)" where
  "markSectionsAsEdited clock sectionSources =
     (\<lambda>key. case sectionSources key of
               None \<Rightarrow> None
             | Some v \<Rightarrow> Some (v\<lparr>manuallyEdited := Some True, lastEditedAt := Some (clock key)\<rparr>))"

definition saveDraftContent ::
    "store \<Rightarrow> (string \<Rightarrow> timestamp) \<Rightarrow> string \<Rightarrow> node \<Rightarrow> service_error + (draft \<times> store)" where
  "saveDraftContent db clock projectId c =
     (case getDraftByProject db projectId of
        Inl e \<Rightarrow> Inl e
      | Inr None \<Rightarrow> Inl NoDraftForProject
      | Inr (Some d) \<Rightarrow>
          (case update_error db of
             Some msg \<Rightarrow> Inl (FailedToSaveDraft msg)
           | None \<Rightarrow>
               (let upd = (\<lambda>row. row\<lparr>content := Some c,
                                     section_sources := markSectionsAsEdited clock (section_sources d)\<rparr>)
                in Inr (upd d, update_rows db (draft_id d) upd))))"

text \<open>
  \<^verbatim>\<open>extractSectionText\<close> of the export service: the text parts pushed by the inner
  \<^verbatim>\<open>extractText\<close>, joined, then trimmed.
\<close>

fun extractText :: "node \<Rightarrow> string" where
  "extractText (TextNode t ms) = t"
| "extractText (Elem ty a None) = []"
| "extractText (Elem ty a (Some cs)) =
     (if ty = HeadingType then []
      else concat (map extractText cs) @ (if ty = ParagraphType then [LF, LF] else []))"

definition extractSectionText :: "node \<Rightarrow> string" where
  "extractSectionText n =
     trim (case node_content n of None \<Rightarrow> [] | Some cs \<Rightarrow> concat (map extractText cs))"

subsection \<open>Saving the editor content\<close>

lemma markSectionsAsEdited_entry:
  "markSectionsAsEdited clock m k = Some e' \<longleftrightarrow>
     (\<exists>e. m k = Some e \<and> e' = e\<lparr>manuallyEdited := Some True, lastEditedAt := Some (clock k)\<rparr>)"
  by (auto simp: markSectionsAsEdited_def split: option.splits)

lemma markSectionsAsEdited_dom: "dom (markSectionsAsEdited clock m) = dom m"
  by (auto simp: markSectionsAsEdited_def dom_def split: option.splits)

text \<open>A store with one draft, which has one provenance entry and an empty tree.\<close>

definition example_provenance :: provenance where
  "example_provenance =
     \<lparr>sourceDocuments = [''doc1''], sourceSections = [''Methods''], aiGenerated = Some True,
      prov_warnings = [''short''], generatedAt = Some ''2024-01-01T00:00:00.000Z'',
      manuallyEdited = None, lastEditedAt = None\<rparr>"

definition example_row :: draft where
  "example_row =
     \<lparr>draft_id = ''d1'', project_id = ''p1'', version = 1,
      content = Some (Elem DocType None (Some [])),
      section_sources = [''s1'' \<mapsto> example_provenance],
      references = []\<rparr>"

definition example_store :: store where
  "example_store = \<lparr>drafts = [example_row], select_error = None, update_error = None\<rparr>"

text \<open>
  Claim C8. When the project has a draft and the update succeeds, \<^verbatim>\<open>saveDraftContent\<close>
  stores the supplied content as the new tree, whatever it is, and every existing
  provenance entry gets \<^verbatim>\<open>manuallyEdited = true\<close> and a fresh \<^verbatim>\<open>lastEditedAt\<close>, while
  its other fields (\<^verbatim>\<open>aiGenerated\<close>, source documents, source sections, warnings,
  \<^verbatim>\<open>generatedAt\<close>) stay as they were; no entry is added or removed.
\<close>

theorem saveDraftContent_marks_every_entry:
  assumes "getDraftByProject db projectId = Inr (Some d)" and "update_error db = None"
  shows "\<exists>d' db'. saveDraftContent db clock projectId c = Inr (d', db')
     \<and> content d' = Some c
     \<and> drafts db' = map (\<lambda>row. if draft_id row = draft_id d
                                  then row\<lparr>content := Some c, section_sources := section_sources d'\<rparr>
                                  else row) (drafts db)
     \<and> dom (section_sources d') = dom (section_sources d)
     \<and> (\<forall>k e. section_sources d k = Some e \<longrightarrow>
           (\<exists>e'. section_sources d' k = Some e'
              \<and> manuallyEdited e' = Some True \<and> lastEditedAt e' = Some (clock k)
              \<and> aiGenerated e' = aiGenerated e \<and> sourceDocuments e' = sourceDocuments e
              \<and> sourceSections e' = sourceSections e \<and> prov_warnings e' = prov_warnings e
              \<and> generatedAt e' = generatedAt e))"
proof -
  let ?upd = "\<lambda>row. row\<lparr>content := Some c,
                 section_sources := markSectionsAsEdited clock (section_sources d)\<rparr>"
  have s: "saveDraftContent db clock projectId c = Inr (?upd d, update_rows db (draft_id d) ?upd)"
    using assms by (simp add: saveDraftContent_def Let_def)
  have 1: "content (?upd d) = Some c" by simp
  have 2: "drafts (update_rows db (draft_id d) ?upd)
        = map (\<lambda>row. if draft_id row = draft_id d
                      then row\<lparr>content := Some c, section_sources := section_sources (?upd d)\<rparr>
                      else row) (drafts db)"
    by (simp add: update_rows_def)
  have 3: "dom (section_sources (?upd d)) = dom (section_sources d)"
    by (simp add: markSectionsAsEdited_dom)
  have 4: "\<forall>k e. section_sources d k = Some e \<longrightarrow>
           (\<exists>e'. section_sources (?upd d) k = Some e'
              \<and> manuallyEdited e' = Some True \<and> lastEditedAt e' = Some (clock k)
              \<and> aiGenerated e' = aiGenerated e \<and> sourceDocuments e' = sourceDocuments e
              \<and> sourceSections e' = sourceSections e \<and> prov_warnings e' = prov_warnings e
              \<and> generatedAt e' = generatedAt e)"
    by (simp add: markSectionsAsEdited_def)
  from s 1 2 3 4 show ?thesis by blast
qed

theorem saveDraftContent_marks_every_entry_witness:
  "getDraftByProject example_store ''p1'' = Inr (Some example_row)
   \<and> update_error example_store = None
   \<and> section_sources example_row ''s1'' = Some example_provenance
   \<and> (\<exists>d' db' e'. saveDraftContent example_store (\<lambda>k. ''2024-02-02T00:00:00.000Z'') ''p1''
                       (Elem DocType None (Some [TextNode ''edited'' []])) = Inr (d', db')
        \<and> content d' = Some (Elem DocType None (Some [TextNode ''edited'' []]))
        \<and> section_sources d' ''s1'' = Some e'
        \<and> manuallyEdited e' = Some True \<and> lastEditedAt e' = Some ''2024-02-02T00:00:00.000Z''
        \<and> aiGenerated e' = Some True \<and> prov_warnings e' = [''short''])"
proof -
  have g: "getDraftByProject example_store ''p1'' = Inr (Some example_row)"
    by (simp add: getDraftByProject_def example_store_def example_row_def)
  have u: "update_error example_store = None"
    by (simp add: example_store_def)
  have p: "section_sources example_row ''s1'' = Some example_provenance"
    by (simp add: example_row_def)
  have f: "aiGenerated example_provenance = Some True" "prov_warnings example_provenance = [''short'']"
    by (simp_all add: example_provenance_def)
  from saveDraftContent_marks_every_entry[OF g u, of "\<lambda>k. ''2024-02-02T00:00:00.000Z''"
      "Elem DocType None (Some [TextNode ''edited'' []])"] p f
  have "\<exists>d' db' e'. saveDraftContent example_store (\<lambda>k. ''2024-02-02T00:00:00.000Z'') ''p1''
                       (Elem DocType None (Some [TextNode ''edited'' []])) = Inr (d', db')
        \<and> content d' = Some (Elem DocType None (Some [TextNode ''edited'' []]))
        \<and> section_sources d' ''s1'' = Some e'
        \<and> manuallyEdited e' = Some True \<and> lastEditedAt e' = Some ''2024-02-02T00:00:00.000Z''
        \<and> aiGenerated e' = Some True \<and> prov_warnings e' = [''short'']"
    by (metis (no_types, lifting))
  with g u p show ?thesis by blast
qed

subsection \<open>Updating one section\<close>























section \<open>The content validator\<close>

text \<open>
  \<^verbatim>\<open>normalizeWhitespace\<close> of the helpers: \<^verbatim>\<open>text.replace(/\s+/g, ' ').trim()\<close>.
\<close>

function collapse_spaces :: "string \<Rightarrow> string" where
  "collapse_spaces [] = []"
| "collapse_spaces (c # cs) =
     (if is_space c then CHR '' '' # collapse_spaces (dropWhile is_space cs)
      else c # collapse_spaces cs)"
  by pat_completeness auto
termination
  by (relation "measure length") (auto simp: length_dropWhile_le less_Suc_eq_le)

definition normalizeWhitespace :: "string \<Rightarrow> string" where
  "normalizeWhitespace t = trim (collapse_spaces t)"

text \<open>
  The replacements of \<^verbatim>\<open>cleanGeneratedText\<close>, each the first match of its regular
  expression. \<^verbatim>\<open>/^```[\w]*\n?/\<close> and \<^verbatim>\<open>/\n?```$/\<close>: the fence at the start with its
  language word and line feed, and the fence at the very end with the line feed before
  it.
\<close>

definition strip_fence_open :: "string \<Rightarrow> string" where
  "strip_fence_open s =
     (if take 3 s = ''```''
      then (case dropWhile is_word (drop 3 s) of
              [] \<Rightarrow> []
            | c # cs \<Rightarrow> if c = LF then cs else c # cs)
      else s)"

definition ends_with :: "string \<Rightarrow> string \<Rightarrow> bool" where
  "ends_with suf s \<longleftrightarrow> length suf \<le> length s \<and> drop (length s - length suf) s = suf"

definition strip_fence_close :: "string \<Rightarrow> string" where
  "strip_fence_close s =
     (if ends_with (LF # ''```'') s then take (length s - 4) s
      else if ends_with ''```'' s then take (length s - 3) s
      else s)"

text \<open>
  \<^verbatim>\<open>/^(Here is|Here's|Below is|The following is)[^:]*:\s*/i\<close>: an opener at the start,
  everything up to the first colon, and the white space after it. Without a colon
  nothing matches.
\<close>

definition preamble_openers :: "string list" where
  "preamble_openers = [''Here is'', ''Here's'', ''Below is'', ''The following is'']"

definition strip_preamble :: "string \<Rightarrow> string" where
  "strip_preamble s =
     (case find (\<lambda>opener. ci_prefix opener s) preamble_openers of
        None \<Rightarrow> s
      | Some opener \<Rightarrow>
          (case dropWhile (\<lambda>c. c \<noteq> CHR '':'') (drop (length opener) s) of
             [] \<Rightarrow> s
           | colon # rest \<Rightarrow> dropWhile is_space rest))"

text \<open>
  \<^verbatim>\<open>/^#+\s*[\w\s]+\n+/\<close>: all leading hashes, then word and white-space characters (line
  feeds among them), then line feeds. The greedy class gives back only as far as the
  last line feed of its run, so the match ends there; it needs one character of the
  class before that line feed.
\<close>

definition strip_heading :: "string \<Rightarrow> string" where
  "strip_heading s =
     (let hashes = takeWhile (\<lambda>c. c = CHR ''#'') s;
          rest = dropWhile (\<lambda>c. c = CHR ''#'') s;
          run = takeWhile (\<lambda>c. is_word c \<or> is_space c) rest;
          upto_last_newline = rev (dropWhile (\<lambda>c. c \<noteq> LF) (rev run))
      in if hashes \<noteq> [] \<and> length upto_last_newline \<ge> 2
         then drop (length upto_last_newline) rest
         else s)"

text \<open>
  \<^verbatim>\<open>/\n+(Note:|Please note:|I hope|Let me know|Is there anything)[^]*$/i\<close>: the first
  run of line feeds that an opener follows, and everything after it.
\<close>

definition trailer_openers :: "string list" where
  "trailer_openers = [''Note:'', ''Please note:'', ''I hope'', ''Let me know'', ''Is there anything'']"

fun strip_trailer :: "string \<Rightarrow> string" where
  "strip_trailer [] = []"
| "strip_trailer (c # cs) =
     (if c = LF \<and> list_ex (\<lambda>opener. ci_prefix opener (dropWhile (\<lambda>x. x = LF) cs)) trailer_openers
      then []
      else c # strip_trailer cs)"

definition strip_artifacts :: "string \<Rightarrow> string" where
  "strip_artifacts t = strip_trailer (strip_heading (strip_preamble (strip_fence_close (strip_fence_open t))))"

text \<open>
  \<^verbatim>\<open>.split('\n\n').map(para => normalizeWhitespace(para)).filter(para => para.length > 0).join('\n\n')\<close>
\<close>

definition normalize_paragraphs :: "string \<Rightarrow> string" where
  "normalize_paragraphs t =
     join [LF, LF] (filter (\<lambda>para. length para > 0) (map normalizeWhitespace (split_on [LF, LF] t)))"

definition cleanGeneratedText :: "string \<Rightarrow> string" where
  "cleanGeneratedText t = (if t = [] then [] else trim (normalize_paragraphs (strip_artifacts t)))"

text \<open>
  The marker patterns, each written out as its alternatives; all are matched with the
  \<^verbatim>\<open>i\<close> flag. No two alternatives of one pattern match at the same position.
\<close>

definition HALLUCINATION_MARKERS :: "string list list" where
  "HALLUCINATION_MARKERS =
     [[''I don't have access to'', ''I don't have information about''],
      [''I cannot find'', ''I cannot locate'', ''I cannot access''],
      [''there is no information'', ''there is no data'', ''there is no content''],
      [''I would need more information'', ''I would need more context'', ''I would need more data''],
      [''I'm not sure'', ''I'm not certain'', ''I'm not able to confirm''],
      [''this may not be accurate'', ''this might not be accurate'', ''this could not be accurate''],
      [''I cannot verify''],
      [''hypothetically''],
      [''I assume''],
      [''let me imagine'', ''let me suppose'', ''let me assume'']]"

definition FAILURE_MARKERS :: "string list list" where
  "FAILURE_MARKERS =
     [[''insufficient source content''],
      [''no relevant content found'', ''no relevant information found''],
      [''unable to generate'', ''unable to create'', ''unable to write''],
      [''content not available'']]"

text \<open>
  \<^verbatim>\<open>text.match(pattern)[0]\<close>: the text matched at the leftmost position where an
  alternative matches; \<open>None\<close> when \<^verbatim>\<open>pattern.test(text)\<close> is false.
\<close>

fun regex_search :: "string list \<Rightarrow> string \<Rightarrow> string option" where
  "regex_search alts [] = None"
| "regex_search alts (c # cs) =
     (case find (\<lambda>a. ci_prefix a (c # cs)) alts of
        Some a \<Rightarrow> Some (take (length a) (c # cs))
      | None \<Rightarrow> regex_search alts cs)"

fun detectFailure_loop :: "string list list \<Rightarrow> string \<Rightarrow> string option" where
  "detectFailure_loop [] t = None"
| "detectFailure_loop (pattern # patterns) t =
     (case regex_search pattern t of
        Some m \<Rightarrow> Some m
      | None \<Rightarrow> detectFailure_loop patterns t)"

definition detectFailure :: "string \<Rightarrow> string option" where
  "detectFailure t = detectFailure_loop FAILURE_MARKERS t"

definition detectHallucination :: "string \<Rightarrow> bool \<times> string list" where
  "detectHallucination t =
     (let markers = concat (map (\<lambda>pattern. case regex_search pattern t of Some m \<Rightarrow> [m] | None \<Rightarrow> [])
                             HALLUCINATION_MARKERS)
      in (length markers > 0, markers))"

text \<open>
  \<^verbatim>\<open>cleaned.split(/\s+/).length\<close> and \<^verbatim>\<open>cleaned.split(/\n\n+/).length\<close> are one more
  than the number of matches of the separator: the maximal runs of white space, and the
  maximal runs of two or more line feeds.
\<close>

function count_space_runs :: "string \<Rightarrow> nat" where
  "count_space_runs [] = 0"
| "count_space_runs (c # cs) =
     (if is_space c then Suc (count_space_runs (dropWhile is_space cs)) else count_space_runs cs)"
  by pat_completeness auto
termination
  by (relation "measure length") (auto simp: length_dropWhile_le less_Suc_eq_le)

function count_break_runs :: "string \<Rightarrow> nat" where
  "count_break_runs [] = 0"
| "count_break_runs (c # cs) =
     (if c = LF \<and> take 1 cs = [LF] then Suc (count_break_runs (dropWhile (\<lambda>x. x = LF) cs))
      else count_break_runs cs)"
  by pat_completeness auto
termination
  by (relation "measure length") (auto simp: length_dropWhile_le less_Suc_eq_le)

record metadata =
  wordCount :: nat
  paragraphCount :: nat
  hasHallucinationMarkers :: bool

text \<open>
  The two shapes of the result of \<^verbatim>\<open>parseSectionContent\<close>: the failure object with
  \<^verbatim>\<open>success\<close>, \<^verbatim>\<open>content\<close>, \<^verbatim>\<open>sectionTitle\<close>, \<^verbatim>\<open>error\<close>, \<^verbatim>\<open>needsManualInput\<close>,
  and the content object with \<^verbatim>\<open>success\<close>, \<^verbatim>\<open>content\<close>, \<^verbatim>\<open>sectionTitle\<close>,
  \<^verbatim>\<open>warnings\<close>, \<^verbatim>\<open>metadata\<close>.
\<close>

datatype section_result =
  FailureResult bool string string string bool
  | ContentResult bool string string "string list" metadata

definition parseSectionContent :: "string \<Rightarrow> string \<Rightarrow> section_result" where
  "parseSectionContent response sectionTitle =
     (let cleaned = cleanGeneratedText response
      in case detectFailure cleaned of
           Some reason \<Rightarrow>
             FailureResult False [] sectionTitle (''Could not generate content: '' @ reason) True
         | None \<Rightarrow>
             (let hallucination = detectHallucination cleaned;
                  isTooShort = length cleaned < 50
              in ContentResult (\<not> isTooShort) cleaned sectionTitle
                   ((if fst hallucination
                     then [''Potential uncertainty detected: '' @ join '', '' (snd hallucination)]
                     else [])
                    @ (if isTooShort
                       then [''Generated content is very short. May need additional source material.'']
                       else []))
                   \<lparr>wordCount = Suc (count_space_runs cleaned),
                    paragraphCount = Suc (count_break_runs cleaned),
                    hasHallucinationMarkers = fst hallucination\<rparr>))"

subsection \<open>Words, and splitting and joining\<close>

text \<open>The words of a text: its maximal runs of characters that are not white space.\<close>

function words :: "string \<Rightarrow> string list" where
  "words [] = []"
| "words (c # cs) =
     (if is_space c then words cs
      else (c # takeWhile (\<lambda>x. \<not> is_space x) cs) # words (dropWhile (\<lambda>x. \<not> is_space x) cs))"
  by pat_completeness auto
termination
  by (relation "measure length") (auto simp: length_dropWhile_le less_Suc_eq_le)

definition rtrim :: "string \<Rightarrow> string" where
  "rtrim s = rev (dropWhile is_space (rev s))"

lemma trim_rtrim: "trim s = rtrim (dropWhile is_space s)"
  by (simp add: trim_def rtrim_def)

lemma words_blank: "words s = [] \<longleftrightarrow> (\<forall>c\<in>set s. is_space c)"
  by (induction s rule: words.induct) auto

lemma words_ltrim: "words (dropWhile is_space s) = words s"
  by (induction s) auto

lemma words_append_space:
  "is_space c \<Longrightarrow> words (a @ c # b) = words a @ words b"
proof (induction a rule: words.induct)
  case 1
  then show ?case by simp
next
  case (2 x xs)
  show ?case
  proof (cases "is_space x")
    case True
    with 2 show ?thesis by simp
  next
    case False
    let ?N = "\<lambda>x. \<not> is_space x"
    show ?thesis
    proof (cases "\<forall>y\<in>set xs. ?N y")
      case True
      then have t: "takeWhile ?N (xs @ c # b) = xs" "dropWhile ?N (xs @ c # b) = c # b"
        using "2.prems" by (simp_all add: takeWhile_append2 dropWhile_append2)
      from True have tw: "takeWhile ?N xs = xs" and dw: "dropWhile ?N xs = []" by simp_all
      from False t "2.prems" show ?thesis by (simp add: tw dw)
    next
      case nall: False
      then obtain y where y: "y \<in> set xs" "\<not> ?N y" by blast
      then have t: "takeWhile ?N (xs @ c # b) = takeWhile ?N xs"
        "dropWhile ?N (xs @ c # b) = dropWhile ?N xs @ c # b"
        by (simp_all add: takeWhile_append1 dropWhile_append1)
      from "2.IH"(2)[OF False "2.prems"] False t show ?thesis by simp
    qed
  qed
qed

lemma words_append_blank:
  "\<forall>c\<in>set b. is_space c \<Longrightarrow> words (a @ b) = words a"
proof (induction b arbitrary: a)
  case Nil
  then show ?case by simp
next
  case (Cons c b)
  then have "words (a @ c # b) = words a @ words b" by (simp add: words_append_space)
  moreover from Cons.prems have "words b = []" by (simp add: words_blank)
  ultimately show ?case by simp
qed

lemma rtrim_decomp: "\<exists>b. s = rtrim s @ b \<and> (\<forall>c\<in>set b. is_space c)"
proof -
  have "rev s = takeWhile is_space (rev s) @ dropWhile is_space (rev s)" by simp
  then have "s = rev (dropWhile is_space (rev s)) @ rev (takeWhile is_space (rev s))"
    by (metis rev_append rev_rev_ident)
  moreover have "\<forall>c\<in>set (rev (takeWhile is_space (rev s))). is_space c"
    by (auto dest: set_takeWhileD)
  ultimately show ?thesis unfolding rtrim_def by blast
qed

lemma words_rtrim: "words (rtrim s) = words s"
proof -
  from rtrim_decomp[of s] obtain b where b: "s = rtrim s @ b" "\<forall>c\<in>set b. is_space c" by blast
  from words_append_blank[OF b(2), of "rtrim s"] b(1) show ?thesis by simp
qed

lemma words_trim: "words (trim s) = words s"
  by (simp add: trim_rtrim words_rtrim words_ltrim)

lemma join_Cons: "ps \<noteq> [] \<Longrightarrow> join sep (p # ps) = p @ sep @ join sep ps"
  by (cases ps) simp_all

lemma words_join_breaks:
  "words (join [LF, LF] ps) = concat (map words ps)"
proof (induction ps)
  case Nil
  then show ?case by simp
next
  case (Cons x ps)
  show ?case
  proof (cases "ps = []")
    case True
    then show ?thesis by simp
  next
    case False
    have sp: "is_space LF" by (simp add: is_space_def LF_def)
    have "words (x @ LF # LF # join [LF, LF] ps) = words x @ words (LF # join [LF, LF] ps)"
      by (rule words_append_space[OF sp])
    with sp Cons False show ?thesis by (simp add: join_Cons)
  qed
qed

lemma break_on_Some: "break_on sep s = Some (b, a) \<Longrightarrow> s = b @ sep @ a"
proof (induction s arbitrary: b)
  case Nil
  then show ?case by simp
next
  case (Cons c cs)
  show ?case
  proof (cases "take (length sep) (c # cs) = sep")
    case True
    with Cons.prems have "b = []" "a = drop (length sep) (c # cs)" by auto
    with True show ?thesis by (metis append_Nil append_take_drop_id)
  next
    case False
    with Cons.prems obtain b' where b': "break_on sep cs = Some (b', a)" "b = c # b'" by auto
    from Cons.IH[OF b'(1)] b'(2) show ?thesis by simp
  qed
qed

lemma join_split_on: "sep \<noteq> [] \<Longrightarrow> join sep (split_on sep s) = s"
proof (induction sep s rule: split_on.induct)
  case (1 sep s)
  show ?case
  proof (cases "break_on sep s")
    case None
    with "1.prems" show ?thesis by (simp add: split_on.simps[of sep s])
  next
    case (Some ba)
    obtain b a where ba: "ba = (b, a)" by (cases ba)
    have ne: "split_on sep a \<noteq> []" by (simp add: split_on.simps[of sep a] split: option.splits)
    from "1.IH"[OF "1.prems" Some ba[symmetric] "1.prems"] have ih: "join sep (split_on sep a) = a" .
    have sp: "split_on sep s = b # split_on sep a"
      using Some ba "1.prems" by (simp add: split_on.simps[of sep s])
    have s: "s = b @ sep @ a"
      using Some ba break_on_Some[of sep s b a] by simp
    have "join sep (b # split_on sep a) = b @ sep @ join sep (split_on sep a)"
      using ne by (rule join_Cons)
    with ih sp s show ?thesis by simp
  qed
qed

lemma break_on_no_newline:
  "LF \<notin> set p \<Longrightarrow> break_on [LF, LF] p = None"
  by (induction p) auto

lemma break_on_first_break:
  "LF \<notin> set p \<Longrightarrow> break_on [LF, LF] (p @ LF # LF # r) = Some (p, r)"
  by (induction p) auto

lemma split_on_join_breaks:
  assumes "ps \<noteq> []" "\<forall>p\<in>set ps. LF \<notin> set p"
  shows "split_on [LF, LF] (join [LF, LF] ps) = ps"
  using assms
proof (induction ps)
  case Nil
  then show ?case by simp
next
  case (Cons p ps)
  show ?case
  proof (cases "ps = []")
    case True
    with Cons.prems show ?thesis
      by (simp add: split_on.simps[of _ p] break_on_no_newline)
  next
    case False
    with Cons have ih: "split_on [LF, LF] (join [LF, LF] ps) = ps" by simp
    from Cons.prems have "break_on [LF, LF] (p @ LF # LF # join [LF, LF] ps) = Some (p, join [LF, LF] ps)"
      by (simp add: break_on_first_break)
    with False ih show ?thesis
      by (simp add: join_Cons split_on.simps[of _ "p @ LF # LF # join [LF, LF] ps"])
  qed
qed

lemma words_no_space: "w \<in> set (words s) \<Longrightarrow> w \<noteq> [] \<and> (\<forall>c\<in>set w. \<not> is_space c)"
proof (induction s rule: words.induct)
  case 1
  then show ?case by simp
next
  case (2 c cs)
  show ?case
  proof (cases "is_space c")
    case True
    with 2 show ?thesis by simp
  next
    case False
    with "2.prems" have "w = c # takeWhile (\<lambda>x. \<not> is_space x) cs
        \<or> w \<in> set (words (dropWhile (\<lambda>x. \<not> is_space x) cs))"
      by simp
    then show ?thesis
    proof
      assume "w = c # takeWhile (\<lambda>x. \<not> is_space x) cs"
      with False show ?thesis by (auto dest: set_takeWhileD)
    next
      assume "w \<in> set (words (dropWhile (\<lambda>x. \<not> is_space x) cs))"
      with "2.IH"(2)[OF False] show ?thesis by simp
    qed
  qed
qed

lemma words_word:
  assumes "w \<noteq> []" "\<forall>c\<in>set w. \<not> is_space c"
  shows "words w = [w]"
proof -
  from assms obtain c cs where w: "w = c # cs" by (cases w) auto
  with assms have tw: "takeWhile (\<lambda>x. \<not> is_space x) cs = cs"
    and dw: "dropWhile (\<lambda>x. \<not> is_space x) cs = []"
    by simp_all
  from w assms show ?thesis by (simp add: tw dw)
qed

lemma words_join_spaces:
  assumes "\<forall>w\<in>set ws. w \<noteq> [] \<and> (\<forall>c\<in>set w. \<not> is_space c)"
  shows "words (join '' '' ws) = ws"
  using assms
proof (induction ws)
  case Nil
  then show ?case by simp
next
  case (Cons w ws)
  have sp: "is_space (CHR '' '')" by (simp add: is_space_def)
  from Cons.prems have w: "words w = [w]" by (simp add: words_word)
  show ?case
  proof (cases "ws = []")
    case True
    with w show ?thesis by simp
  next
    case False
    have "words (w @ CHR '' '' # join '' '' ws) = words w @ words (join '' '' ws)"
      by (rule words_append_space[OF sp])
    with Cons w False show ?thesis by (simp add: join_Cons)
  qed
qed

subsection \<open>Normalised white space\<close>

lemma collapse_spaces_word:
  "\<forall>c\<in>set u. \<not> is_space c \<Longrightarrow> collapse_spaces (u @ v) = u @ collapse_spaces v"
  by (induction u) simp_all

lemma rtrim_blank: "rtrim y = [] \<longleftrightarrow> (\<forall>c\<in>set y. is_space c)"
  by (simp add: rtrim_def)

lemma rtrim_Cons: "rtrim y \<noteq> [] \<Longrightarrow> rtrim (c # y) = c # rtrim y"
proof -
  assume "rtrim y \<noteq> []"
  then obtain x where x: "x \<in> set (rev y)" "\<not> is_space x" by (auto simp: rtrim_def)
  then have "dropWhile is_space (rev y @ [c]) = dropWhile is_space (rev y) @ [c]"
    by (simp add: dropWhile_append1)
  then show ?thesis by (simp add: rtrim_def)
qed

lemma rtrim_append_word:
  assumes "w \<noteq> []" "\<not> is_space (last w)"
  shows "rtrim (w @ z) = w @ rtrim z"
proof (induction z rule: rev_induct)
  case Nil
  from assms have "dropWhile is_space (rev w) = rev w" by (cases "rev w") (auto simp: hd_rev)
  then show ?case by (simp add: rtrim_def)
next
  case (snoc c z)
  show ?case
  proof (cases "is_space c")
    case True
    with snoc show ?thesis by (simp add: rtrim_def)
  next
    case False
    then show ?thesis by (simp add: rtrim_def)
  qed
qed

lemma join_words_nonempty: "words z \<noteq> [] \<Longrightarrow> join sep (words z) \<noteq> []"
proof -
  assume ne: "words z \<noteq> []"
  then obtain w ws where w: "words z = w # ws" by (cases "words z") auto
  then have "w \<in> set (words z)" by simp
  then have "w \<noteq> []" using words_no_space by blast
  with w show ?thesis by (cases ws) auto
qed

lemma rtrim_collapse_spaces:
  "rtrim (collapse_spaces s) =
     (if s \<noteq> [] \<and> is_space (hd s)
      then (if words s = [] then [] else CHR '' '' # join '' '' (words s))
      else join '' '' (words s))"
proof (induction "length s" arbitrary: s rule: less_induct)
  case less
  show ?case
  proof (cases s)
    case Nil
    then show ?thesis by (simp add: rtrim_def)
  next
    case (Cons c cs)
    show ?thesis
    proof (cases "is_space c")
      case True
      let ?z = "dropWhile is_space cs"
      have zl: "length ?z < length s" using Cons by (simp add: length_dropWhile_le less_Suc_eq_le)
      have zh: "\<not> (?z \<noteq> [] \<and> is_space (hd ?z))" using hd_dropWhile[of is_space cs] by auto
      from less[OF zl] zh have ih: "rtrim (collapse_spaces ?z) = join '' '' (words ?z)" by simp
      have ws: "words s = words ?z" using Cons True by (simp add: words_ltrim)
      have col: "collapse_spaces s = CHR '' '' # collapse_spaces ?z" using Cons True by simp
      show ?thesis
      proof (cases "words ?z = []")
        case e: True
        then have "\<forall>c\<in>set ?z. is_space c" by (simp add: words_blank)
        with zh have "?z = []" by (cases ?z) auto
        with col have "collapse_spaces s = '' ''" by simp
        then have "rtrim (collapse_spaces s) = []" by (simp add: rtrim_def is_space_def)
        with Cons True ws e show ?thesis by simp
      next
        case ne: False
        with ih have "rtrim (collapse_spaces ?z) \<noteq> []" by (simp add: join_words_nonempty)
        from rtrim_Cons[OF this] col ih have "rtrim (collapse_spaces s) = CHR '' '' # join '' '' (words ?z)"
          by simp
        with Cons True ws ne show ?thesis by simp
      qed
    next
      case False
      let ?N = "\<lambda>x. \<not> is_space x"
      let ?w = "c # takeWhile ?N cs"
      let ?r = "dropWhile ?N cs"
      have s: "s = ?w @ ?r" using Cons by simp
      have rl: "length ?r < length s" using Cons by (simp add: length_dropWhile_le less_Suc_eq_le)
      have wn: "\<forall>x\<in>set ?w. \<not> is_space x" using False by (auto dest: set_takeWhileD)
      then have lw: "\<not> is_space (last ?w)" by (metis last_in_set list.distinct(1))
      have "collapse_spaces s = ?w @ collapse_spaces ?r"
        by (subst s) (rule collapse_spaces_word[OF wn])
      then have rt: "rtrim (collapse_spaces s) = ?w @ rtrim (collapse_spaces ?r)"
        using rtrim_append_word[of ?w, OF _ lw] by simp
      have ws: "words s = ?w # words ?r" using Cons False by simp
      have rh: "?r = [] \<or> is_space (hd ?r)" using hd_dropWhile[of ?N cs] by auto
      show ?thesis
      proof (cases "words ?r = []")
        case e: True
        with less[OF rl] have "rtrim (collapse_spaces ?r) = []" by (simp split: if_splits)
        with rt ws e Cons False show ?thesis by simp
      next
        case ne: False
        then have "?r \<noteq> []" by (metis words.simps(1))
        with rh have "is_space (hd ?r)" by blast
        with less[OF rl] ne \<open>?r \<noteq> []\<close> have "rtrim (collapse_spaces ?r) = CHR '' '' # join '' '' (words ?r)"
          by simp
        with rt ws ne Cons False show ?thesis by (simp add: join_Cons)
      qed
    qed
  qed
qed

lemma ltrim_collapse_spaces:
  "dropWhile is_space (collapse_spaces s) = collapse_spaces (dropWhile is_space s)"
proof (cases s)
  case Nil
  then show ?thesis by simp
next
  case (Cons c cs)
  show ?thesis
  proof (cases "is_space c")
    case True
    let ?z = "dropWhile is_space cs"
    have sp: "is_space (CHR '' '')" by (simp add: is_space_def)
    have "dropWhile is_space (collapse_spaces ?z) = collapse_spaces ?z"
    proof (cases ?z)
      case Nil
      show ?thesis by (simp only: Nil collapse_spaces.simps dropWhile.simps)
    next
      case (Cons d ds)
      with hd_dropWhile[of is_space cs] have "\<not> is_space d" by auto
      with Cons show ?thesis by simp
    qed
    with Cons True sp show ?thesis by simp
  next
    case False
    with Cons show ?thesis by simp
  qed
qed

lemma normalizeWhitespace_words: "normalizeWhitespace s = join '' '' (words s)"
proof -
  let ?z = "dropWhile is_space s"
  have zh: "\<not> (?z \<noteq> [] \<and> is_space (hd ?z))" using hd_dropWhile[of is_space s] by auto
  have "normalizeWhitespace s = rtrim (collapse_spaces ?z)"
    by (simp add: normalizeWhitespace_def trim_rtrim ltrim_collapse_spaces)
  also have "\<dots> = join '' '' (words ?z)" using rtrim_collapse_spaces[of ?z] zh by simp
  finally show ?thesis by (simp add: words_ltrim)
qed

subsection \<open>Cleaning twice\<close>

text \<open>
  A tidy paragraph: not empty, on one line, no white space at either end, and unchanged
  by \<^verbatim>\<open>normalizeWhitespace\<close>.
\<close>

definition tidy :: "string \<Rightarrow> bool" where
  "tidy p \<longleftrightarrow> p \<noteq> [] \<and> LF \<notin> set p \<and> \<not> is_space (hd p) \<and> \<not> is_space (last p)
     \<and> normalizeWhitespace p = p"

lemma set_join: "set (join sep ws) \<subseteq> set sep \<union> \<Union> (set ` set ws)"
proof (induction ws)
  case Nil
  then show ?case by simp
next
  case (Cons w ws)
  then show ?case by (cases "ws = []") (auto simp: join_Cons)
qed

lemma normalizeWhitespace_tidy:
  assumes "normalizeWhitespace x \<noteq> []"
  shows "tidy (normalizeWhitespace x)"
proof -
  let ?p = "normalizeWhitespace x"
  have p: "?p = join '' '' (words x)" by (rule normalizeWhitespace_words)
  have w: "\<forall>w\<in>set (words x). w \<noteq> [] \<and> (\<forall>c\<in>set w. \<not> is_space c)"
    using words_no_space by blast
  have sp: "is_space LF" by (simp add: is_space_def LF_def)
  have "LF \<notin> set (join '' '' (words x))"
  proof
    assume "LF \<in> set (join '' '' (words x))"
    with set_join[of "'' ''" "words x"] have "LF \<in> set '' '' \<or> (\<exists>w\<in>set (words x). LF \<in> set w)"
      by auto
    then show False
    proof
      assume "LF \<in> set '' ''"
      then show False by (simp add: LF_def)
    next
      assume "\<exists>w\<in>set (words x). LF \<in> set w"
      with w sp show False by blast
    qed
  qed
  then have 1: "LF \<notin> set ?p" by (simp add: p)
  have "?p = trim (collapse_spaces x)" by (simp add: normalizeWhitespace_def)
  with assms trim_ends[of "collapse_spaces x"]
  have 2: "\<not> is_space (hd ?p)" "\<not> is_space (last ?p)" by simp_all
  have "normalizeWhitespace ?p = join '' '' (words (join '' '' (words x)))"
    by (simp add: normalizeWhitespace_words)
  also have "\<dots> = join '' '' (words x)" by (simp add: words_join_spaces[OF w])
  finally have 3: "normalizeWhitespace ?p = ?p" by (simp add: p)
  from assms 1 2 3 show ?thesis by (simp add: tidy_def)
qed

lemma hd_join: "ps \<noteq> [] \<Longrightarrow> hd ps \<noteq> [] \<Longrightarrow> hd (join sep ps) = hd (hd ps)"
  by (cases ps) (auto simp: join_Cons split: if_splits, metis hd_append2 join.simps(2) join_Cons)

lemma last_join: "ps \<noteq> [] \<Longrightarrow> last ps \<noteq> [] \<Longrightarrow> last (join sep ps) = last (last ps)"
proof (induction ps)
  case Nil
  then show ?case by simp
next
  case (Cons p ps)
  show ?case
  proof (cases "ps = []")
    case True
    then show ?thesis by simp
  next
    case False
    with Cons.prems have l: "last ps \<noteq> []" by simp
    from Cons.IH[OF False l] have ih: "last (join sep ps) = last (last ps)" .
    have "join sep ps \<noteq> []"
    proof
      assume e: "join sep ps = []"
      from False obtain q qs where q: "ps = butlast ps @ [last ps]" by simp
      have "set (last ps) \<subseteq> set (join sep ps)"
        using False
      proof (induction ps)
        case Nil
        then show ?case by simp
      next
        case (Cons a as)
        then show ?case by (cases "as = []") (auto simp: join_Cons)
      qed
      with e l show False by simp
    qed
    with False ih show ?thesis by (simp add: join_Cons)
  qed
qed

lemma join_tidy_fixed:
  assumes "\<forall>p\<in>set ps. tidy p"
  shows "trim (join [LF, LF] ps) = join [LF, LF] ps"
    and "normalize_paragraphs (join [LF, LF] ps) = join [LF, LF] ps"
proof -
  show "trim (join [LF, LF] ps) = join [LF, LF] ps"
  proof (cases "ps = []")
    case True
    then show ?thesis by (simp add: trim_def)
  next
    case False
    with assms have h: "tidy (hd ps)" and l: "tidy (last ps)" by simp_all
    from h False have "\<not> is_space (hd (join [LF, LF] ps))" by (simp add: hd_join tidy_def)
    moreover from l False have "\<not> is_space (last (join [LF, LF] ps))" by (simp add: last_join tidy_def)
    ultimately show ?thesis by (intro trim_fixed) simp
  qed
  show "normalize_paragraphs (join [LF, LF] ps) = join [LF, LF] ps"
  proof (cases "ps = []")
    case True
    then show ?thesis
      by (simp add: normalize_paragraphs_def split_on.simps[of _ "[]"] normalizeWhitespace_def trim_def)
  next
    case False
    from assms have nl: "\<forall>p\<in>set ps. LF \<notin> set p" by (simp add: tidy_def)
    have sp: "split_on [LF, LF] (join [LF, LF] ps) = ps"
      by (rule split_on_join_breaks[OF False nl])
    from assms have m: "map normalizeWhitespace ps = ps" by (simp add: tidy_def map_idI)
    from assms have f: "filter (\<lambda>para. para \<noteq> []) ps = ps" by (simp add: tidy_def filter_id_conv)
    show ?thesis by (simp add: normalize_paragraphs_def sp m f)
  qed
qed

lemma normalize_paragraphs_tidy:
  "\<exists>ps. normalize_paragraphs s = join [LF, LF] ps \<and> (\<forall>p\<in>set ps. tidy p)"
proof -
  let ?ps = "filter (\<lambda>para. length para > 0) (map normalizeWhitespace (split_on [LF, LF] s))"
  have "\<forall>p\<in>set ?ps. tidy p" by (auto simp: normalizeWhitespace_tidy)
  then show ?thesis unfolding normalize_paragraphs_def by blast
qed

lemma cleanGeneratedText_normal:
  "trim (cleanGeneratedText t) = cleanGeneratedText t"
  "normalize_paragraphs (cleanGeneratedText t) = cleanGeneratedText t"
  "cleanGeneratedText t = (if t = [] then [] else normalize_paragraphs (strip_artifacts t))"
proof -
  obtain ps where ps: "normalize_paragraphs (strip_artifacts t) = join [LF, LF] ps" "\<forall>p\<in>set ps. tidy p"
    using normalize_paragraphs_tidy by blast
  have e: "normalize_paragraphs [] = []"
    by (simp add: normalize_paragraphs_def split_on.simps[of _ "[]"] normalizeWhitespace_def trim_def)
  show c: "cleanGeneratedText t = (if t = [] then [] else normalize_paragraphs (strip_artifacts t))"
    using ps join_tidy_fixed(1)[OF ps(2)] by (simp add: cleanGeneratedText_def)
  show "trim (cleanGeneratedText t) = cleanGeneratedText t"
    using c ps join_tidy_fixed(1)[OF ps(2)] by (simp add: trim_def)
  show "normalize_paragraphs (cleanGeneratedText t) = cleanGeneratedText t"
    using c ps join_tidy_fixed(2)[OF ps(2)] e by simp
qed

lemma cleanGeneratedText_twice:
  assumes "strip_artifacts (cleanGeneratedText t) = cleanGeneratedText t"
  shows "cleanGeneratedText (cleanGeneratedText t) = cleanGeneratedText t"
proof -
  let ?c = "cleanGeneratedText t"
  have "cleanGeneratedText ?c = (if ?c = [] then [] else trim (normalize_paragraphs (strip_artifacts ?c)))"
    by (simp add: cleanGeneratedText_def[of ?c])
  with assms cleanGeneratedText_normal(1,2)[of t] show ?thesis by simp
qed

text \<open>A text with two preambles.\<close>

definition twice_prefaced :: string where
  "twice_prefaced = ''Here is the text: Here is more: done''"

text \<open>
  Claim C4, as stated, fails: a text with two preambles loses one at each pass, so the
  second pass changes the result of the first.
\<close>

theorem cleanGeneratedText_not_idempotent:
  "cleanGeneratedText twice_prefaced = ''Here is more: done''
   \<and> cleanGeneratedText (cleanGeneratedText twice_prefaced) = ''done''
   \<and> cleanGeneratedText (cleanGeneratedText twice_prefaced) \<noteq> cleanGeneratedText twice_prefaced"
proof -
  have 1: "cleanGeneratedText twice_prefaced = ''Here is more: done''"
    by code_simp
  have 2: "cleanGeneratedText ''Here is more: done'' = ''done''"
    by code_simp
  from 1 2 show ?thesis by simp
qed

text \<open>
  Claim C4, amended. For every text, the cleaned text is a fixed point of the
  paragraph and white-space normalisation and of trimming; and cleaning the cleaned
  text again changes nothing whenever the stripping rules (code fence, preamble,
  leading heading, trailing note) do not apply to the cleaned text.
\<close>

theorem cleanGeneratedText_idempotent_once_stripped:
  "normalize_paragraphs (cleanGeneratedText t) = cleanGeneratedText t
   \<and> trim (cleanGeneratedText t) = cleanGeneratedText t
   \<and> (strip_artifacts (cleanGeneratedText t) = cleanGeneratedText t
        \<longrightarrow> cleanGeneratedText (cleanGeneratedText t) = cleanGeneratedText t)"
  using cleanGeneratedText_normal(1,2)[of t] cleanGeneratedText_twice[of t] by blast

theorem cleanGeneratedText_idempotent_once_stripped_witness:
  "cleanGeneratedText ''Here is the text: done'' = ''done''
   \<and> strip_artifacts (cleanGeneratedText ''Here is the text: done'') = cleanGeneratedText ''Here is the text: done''
   \<and> cleanGeneratedText (cleanGeneratedText ''Here is the text: done'') = cleanGeneratedText ''Here is the text: done''"
proof -
  have 1: "cleanGeneratedText ''Here is the text: done'' = ''done''"
    by code_simp
  have 2: "strip_artifacts ''done'' = ''done''"
    by code_simp
  from 1 2 have 3: "strip_artifacts (cleanGeneratedText ''Here is the text: done'') = cleanGeneratedText ''Here is the text: done''"
    by simp
  from cleanGeneratedText_idempotent_once_stripped[of "''Here is the text: done''"] 3
  have 4: "cleanGeneratedText (cleanGeneratedText ''Here is the text: done'') = cleanGeneratedText ''Here is the text: done''"
    by blast
  show ?thesis
    by (intro conjI) (rule 1, rule 3, rule 4)
qed

subsection \<open>The failure screen\<close>

text \<open>The phrase occurs somewhere in the text, letter case ignored.\<close>

fun contains_ci :: "string \<Rightarrow> string \<Rightarrow> bool" where
  "contains_ci a [] = ci_prefix a []"
| "contains_ci a (c # cs) = (ci_prefix a (c # cs) \<or> contains_ci a cs)"

text \<open>The \<^verbatim>\<open>warnings\<close> of a result; \<open>None\<close> when the object has no such key.\<close>

definition result_warnings :: "section_result \<Rightarrow> string list option" where
  "result_warnings r =
     (case r of
        FailureResult success c sectionTitle err needsManualInput \<Rightarrow> None
      | ContentResult success c sectionTitle ws md \<Rightarrow> Some ws)"

lemma regex_search_Some:
  "regex_search alts s = Some m \<Longrightarrow>
     \<exists>a\<in>set alts. \<exists>pre post. s = pre @ m @ post \<and> map canon m = map canon a"
proof (induction s)
  case Nil
  then show ?case by simp
next
  case (Cons c cs)
  show ?case
  proof (cases "find (\<lambda>a. ci_prefix a (c # cs)) alts")
    case None
    with Cons.prems have "regex_search alts cs = Some m" by simp
    from Cons.IH[OF this] obtain a pre post where "a \<in> set alts" "cs = pre @ m @ post"
      "map canon m = map canon a" by blast
    then have "a \<in> set alts" "c # cs = (c # pre) @ m @ post" "map canon m = map canon a" by simp_all
    then show ?thesis by blast
  next
    case (Some a)
    then have a: "a \<in> set alts" "ci_prefix a (c # cs)"
      by (auto simp: find_Some_iff)
    from Some Cons.prems have m: "m = take (length a) (c # cs)" by simp
    have "c # cs = [] @ m @ drop (length a) (c # cs)" by (simp add: m)
    moreover from a(2) m have "map canon m = map canon a" by (simp add: ci_prefix_def)
    ultimately show ?thesis using a(1) by blast
  qed
qed

lemma regex_search_finds:
  assumes "a \<in> set alts" "a \<noteq> []" "contains_ci a s"
  shows "regex_search alts s \<noteq> None"
  using assms(3)
proof (induction s)
  case Nil
  with assms(2) show ?case by (simp add: ci_prefix_def)
next
  case (Cons c cs)
  show ?case
  proof (cases "find (\<lambda>a. ci_prefix a (c # cs)) alts")
    case (Some b)
    then show ?thesis by simp
  next
    case None
    with assms(1) have "\<not> ci_prefix a (c # cs)" by (auto simp: find_None_iff)
    with Cons.prems have "contains_ci a cs" by simp
    from Cons.IH[OF this] None show ?thesis by simp
  qed
qed

lemma detectFailure_loop_Some:
  "detectFailure_loop patterns t = Some m \<Longrightarrow>
     \<exists>a\<in>set (concat patterns). (\<exists>pre post. t = pre @ m @ post) \<and> map canon m = map canon a"
proof (induction patterns)
  case Nil
  then show ?case by simp
next
  case (Cons p ps)
  show ?case
  proof (cases "regex_search p t")
    case None
    with Cons show ?thesis by auto
  next
    case (Some m')
    with Cons.prems have "m' = m" by simp
    with regex_search_Some[OF Some] show ?thesis by auto
  qed
qed

lemma detectFailure_loop_finds:
  assumes "a \<in> set (concat patterns)" "a \<noteq> []" "contains_ci a t"
  shows "detectFailure_loop patterns t \<noteq> None"
  using assms(1)
proof (induction patterns)
  case Nil
  then show ?case by simp
next
  case (Cons p ps)
  show ?case
  proof (cases "regex_search p t")
    case (Some m)
    then show ?thesis by simp
  next
    case None
    with regex_search_finds[OF _ assms(2,3), of p] have "a \<notin> set p" by blast
    with Cons None show ?thesis by auto
  qed
qed

lemma FAILURE_MARKERS_nonempty: "a \<in> set (concat FAILURE_MARKERS) \<Longrightarrow> a \<noteq> []"
  by (auto simp: FAILURE_MARKERS_def)

text \<open>
  Claim C7. Whenever the cleaned text contains one of the failure phrases, in any
  letter case, \<^verbatim>\<open>parseSectionContent\<close> returns the failure object: \<^verbatim>\<open>success = false\<close>,
  empty content, the section title, \<^verbatim>\<open>needsManualInput = true\<close> and the error
  \<^verbatim>\<open>Could not generate content: \<close> followed by the matched text, which is a part of the
  cleaned text and equals a failure phrase up to letter case. The object has no
  \<^verbatim>\<open>warnings\<close>: the hallucination and length checks are not reached.
\<close>

theorem parseSectionContent_failure:
  assumes "phrase \<in> set (concat FAILURE_MARKERS)"
    and "contains_ci phrase (cleanGeneratedText response)"
  shows "\<exists>reason.
      parseSectionContent response sectionTitle
        = FailureResult False [] sectionTitle (''Could not generate content: '' @ reason) True
    \<and> result_warnings (parseSectionContent response sectionTitle) = None
    \<and> (\<exists>a\<in>set (concat FAILURE_MARKERS). map canon reason = map canon a)
    \<and> (\<exists>pre post. cleanGeneratedText response = pre @ reason @ post)"
proof -
  let ?c = "cleanGeneratedText response"
  from detectFailure_loop_finds[OF assms(1) FAILURE_MARKERS_nonempty[OF assms(1)] assms(2)]
  obtain reason where r: "detectFailure ?c = Some reason"
    by (auto simp: detectFailure_def)
  then have p: "parseSectionContent response sectionTitle
        = FailureResult False [] sectionTitle (''Could not generate content: '' @ reason) True"
    by (simp add: parseSectionContent_def Let_def)
  then have w: "result_warnings (parseSectionContent response sectionTitle) = None"
    by (simp add: result_warnings_def)
  from detectFailure_loop_Some[of FAILURE_MARKERS ?c reason] r
  have "\<exists>a\<in>set (concat FAILURE_MARKERS). (\<exists>pre post. ?c = pre @ reason @ post) \<and> map canon reason = map canon a"
    by (simp add: detectFailure_def)
  with p w show ?thesis by blast
qed

theorem parseSectionContent_failure_witness:
  "''unable to write'' \<in> set (concat FAILURE_MARKERS)
   \<and> contains_ci ''unable to write'' (cleanGeneratedText ''Unable to write this.'')
   \<and> parseSectionContent ''Unable to write this.'' ''Introduction''
       = FailureResult False [] ''Introduction'' ''Could not generate content: Unable to write'' True
   \<and> result_warnings (parseSectionContent ''Unable to write this.'' ''Introduction'') = None"
proof -
  have c: "cleanGeneratedText ''Unable to write this.'' = ''Unable to write this.''"
    by code_simp
  have d: "detectFailure ''Unable to write this.'' = Some ''Unable to write''"
    by code_simp
  have 1: "''unable to write'' \<in> set (concat FAILURE_MARKERS)"
    by (simp add: FAILURE_MARKERS_def)
  have 2: "contains_ci ''unable to write'' (cleanGeneratedText ''Unable to write this.'')"
    unfolding c by code_simp
  have 3: "parseSectionContent ''Unable to write this.'' ''Introduction''
       = FailureResult False [] ''Introduction'' ''Could not generate content: Unable to write'' True"
    by (simp add: parseSectionContent_def c d)
  from parseSectionContent_failure[OF 1 2, of "''Introduction''"]
  have 4: "result_warnings (parseSectionContent ''Unable to write this.'' ''Introduction'') = None"
    by blast
  show ?thesis
    by (intro conjI) (rule 1, rule 2, rule 3, rule 4)
qed

section \<open>Round trip of plain paragraphs through the tree\<close>

text \<open>
  A text of plain paragraphs: no star, no bar, and no chunk between blank lines that
  passes the list test of \<^verbatim>\<open>convertContentToProseMirror\<close>.
\<close>

definition plain_paragraphs :: "string \<Rightarrow> bool" where
  "plain_paragraphs t \<longleftrightarrow>
     CHR ''*'' \<notin> set t \<and> CHR ''|'' \<notin> set t
     \<and> list_all (\<lambda>p. \<not> at_line_start starts_bullet p \<and> \<not> at_line_start starts_numbered p)
          (split_on [LF, LF] t)"

lemma match_emphasis_here_plain: "CHR ''*'' \<notin> set s \<Longrightarrow> match_emphasis_here s = None"
proof -
  assume n: "CHR ''*'' \<notin> set s"
  have "take 1 s \<noteq> ''*''"
  proof
    assume "take 1 s = ''*''"
    then have "CHR ''*'' \<in> set (take 1 s)" by simp
    with n show False by (auto dest: in_set_takeD)
  qed
  moreover have "take 2 s \<noteq> ''**''"
  proof
    assume "take 2 s = ''**''"
    then have "CHR ''*'' \<in> set (take 2 s)" by simp
    with n show False by (auto dest: in_set_takeD)
  qed
  ultimately show ?thesis by (simp add: match_emphasis_here_def Let_def)
qed

lemma exec_emphasis_plain: "CHR ''*'' \<notin> set t \<Longrightarrow> exec_emphasis t i = None"
proof (induction t i rule: exec_emphasis.induct)
  case (1 t i)
  show ?case
  proof (cases "length t \<le> i")
    case True
    then show ?thesis by (simp add: exec_emphasis.simps[of t i])
  next
    case False
    from "1.prems" have "CHR ''*'' \<notin> set (drop i t)" by (auto dest: in_set_dropD)
    then have m: "match_emphasis_here (drop i t) = None" by (rule match_emphasis_here_plain)
    from "1.IH"[OF False m "1.prems"] False m show ?thesis
      by (simp add: exec_emphasis.simps[of t i])
  qed
qed

lemma parseInlineFormatting_plain:
  "CHR ''*'' \<notin> set t \<Longrightarrow> parseInlineFormatting t = [TextNode t []]"
  by (simp add: parseInlineFormatting_def parseInlineFormatting_loop.simps[of t 0]
      exec_emphasis_plain substring_def)

lemma set_trim: "set (trim s) \<subseteq> set s"
proof -
  have "set (trim s) \<subseteq> set (dropWhile is_space s)"
    unfolding trim_def by (metis set_dropWhileD set_rev subsetI)
  also have "\<dots> \<subseteq> set s" by (auto dest: set_dropWhileD)
  finally show ?thesis .
qed

lemma set_split_on: "p \<in> set (split_on sep t) \<Longrightarrow> set p \<subseteq> set t"
proof (induction sep t rule: split_on.induct)
  case (1 sep s)
  show ?case
  proof (cases "sep = []")
    case True
    with "1.prems" show ?thesis by (simp add: split_on.simps[of "[]" s])
  next
    case False
    show ?thesis
    proof (cases "break_on sep s")
      case None
      with "1.prems" False show ?thesis by (simp add: split_on.simps[of sep s])
    next
      case (Some ba)
      obtain b a where ba: "ba = (b, a)" by (cases ba)
      from Some ba break_on_Some[of sep s b a] have s: "s = b @ sep @ a" by simp
      from "1.prems" False Some ba have "p = b \<or> p \<in> set (split_on sep a)"
        by (simp add: split_on.simps[of sep s])
      then show ?thesis
      proof
        assume "p = b"
        with s show ?thesis by auto
      next
        assume "p \<in> set (split_on sep a)"
        from "1.IH"[OF False Some ba[symmetric] this] s show ?thesis by auto
      qed
    qed
  qed
qed

lemma convert_chunk_plain:
  assumes "CHR ''*'' \<notin> set p" "CHR ''|'' \<notin> set p"
    "\<not> at_line_start starts_bullet p" "\<not> at_line_start starts_numbered p"
  shows "convert_chunk p = plain_node ParagraphType [TextNode (trim p) []]"
proof -
  from assms(1) set_trim[of p] have "CHR ''*'' \<notin> set (trim p)" by auto
  then have "parseInlineFormatting (trim p) = [TextNode (trim p) []]"
    by (rule parseInlineFormatting_plain)
  with assms(2-4) show ?thesis by (simp add: convert_chunk_def)
qed

lemma extractText_paragraph:
  "extractText (plain_node ParagraphType [TextNode x []]) = x @ [LF, LF]"
  by (simp add: plain_node_def)

lemma trim_paragraphs:
  assumes "\<forall>q\<in>set qs. q \<noteq> [] \<and> \<not> is_space (hd q) \<and> \<not> is_space (last q)"
  shows "trim (concat (map (\<lambda>q. q @ [LF, LF]) qs)) = join [LF, LF] qs"
proof (cases "qs = []")
  case True
  then show ?thesis by (simp add: trim_def)
next
  case False
  have c: "concat (map (\<lambda>q. q @ [LF, LF]) qs) = join [LF, LF] qs @ [LF, LF]"
    using False
  proof (induction qs)
    case Nil
    then show ?case by simp
  next
    case (Cons q qs)
    then show ?case by (cases "qs = []") (simp_all add: join_Cons)
  qed
  let ?X = "join [LF, LF] qs"
  from assms False have h: "\<not> is_space (hd ?X)" by (simp add: hd_join)
  from assms False have l: "\<not> is_space (last ?X)" by (simp add: last_join)
  have ne: "?X \<noteq> []"
  proof -
    from False obtain q rest where q: "qs = q # rest" by (cases qs) auto
    with assms have "q \<noteq> []" by simp
    with q show ?thesis by (cases rest) simp_all
  qed
  have sp: "is_space LF" by (simp add: is_space_def LF_def)
  from ne h have 1: "dropWhile is_space (?X @ [LF, LF]) = ?X @ [LF, LF]" by (cases ?X) auto
  from ne l have 2: "dropWhile is_space (rev ?X) = rev ?X" by (cases "rev ?X") (auto simp: hd_rev)
  show ?thesis unfolding c by (simp add: trim_def 1 2 sp)
qed

lemma split_on_empty: "split_on [LF, LF] [] = [[]]"
  by (simp add: split_on.simps[of _ "[]"])

lemma extractSectionText_plain:
  assumes "plain_paragraphs (sd_content sd)"
  shows "extractSectionText (sectionNode sd)
     = join [LF, LF] (map trim (filter (\<lambda>p. trim p \<noteq> []) (split_on [LF, LF] (sd_content sd))))"
proof -
  let ?t = "sd_content sd"
  let ?ps = "filter (\<lambda>p. trim p \<noteq> []) (split_on [LF, LF] ?t)"
  have conv: "convertContentToProseMirror ?t = map convert_chunk ?ps"
    by (cases "?t = []") (simp_all add: convertContentToProseMirror_def split_on_empty trim_def)
  have chunk: "convert_chunk p = plain_node ParagraphType [TextNode (trim p) []]" if "p \<in> set ?ps" for p
  proof -
    from that have p: "p \<in> set (split_on [LF, LF] ?t)" by simp
    from set_split_on[OF p] assms have "CHR ''*'' \<notin> set p" "CHR ''|'' \<notin> set p"
      by (auto simp: plain_paragraphs_def)
    moreover from p assms have "\<not> at_line_start starts_bullet p" "\<not> at_line_start starts_numbered p"
      by (auto simp: plain_paragraphs_def list_all_iff)
    ultimately show ?thesis by (rule convert_chunk_plain)
  qed
  have "map extractText (map convert_chunk ?ps) = map (\<lambda>q. q @ [LF, LF]) (map trim ?ps)"
    using chunk by (simp add: extractText_paragraph)
  then have parts: "concat (map extractText (convertContentToProseMirror ?t))
      = concat (map (\<lambda>q. q @ [LF, LF]) (map trim ?ps))"
    by (simp only: conv)
  have ends: "\<forall>q\<in>set (map trim ?ps). q \<noteq> [] \<and> \<not> is_space (hd q) \<and> \<not> is_space (last q)"
    using trim_ends by auto
  have "extractSectionText (sectionNode sd) = trim (concat (map extractText (convertContentToProseMirror ?t)))"
    by (simp add: extractSectionText_def sectionNode_def node_content_def)
  also have "\<dots> = join [LF, LF] (map trim ?ps)"
    unfolding parts by (rule trim_paragraphs[OF ends])
  finally show ?thesis .
qed

lemma words_paragraph_chunks:
  "words (join [LF, LF] (map trim (filter (\<lambda>p. trim p \<noteq> []) (split_on [LF, LF] t)))) = words t"
proof -
  have blank: "words p = []" if "trim p = []" for p
    using that words_trim[of p] by simp
  have "concat (map words (filter (\<lambda>p. trim p \<noteq> []) xs)) = concat (map words xs)" for xs
    by (induction xs) (simp_all add: blank)
  then have "words (join [LF, LF] (map trim (filter (\<lambda>p. trim p \<noteq> []) (split_on [LF, LF] t))))
      = concat (map words (split_on [LF, LF] t))"
    by (simp add: words_join_breaks comp_def words_trim)
  also have "\<dots> = words (join [LF, LF] (split_on [LF, LF] t))" by (simp add: words_join_breaks)
  also have "\<dots> = words t" by (simp add: join_split_on)
  finally show ?thesis .
qed

lemma cleaned_chunks:
  "join [LF, LF] (map trim (filter (\<lambda>p. trim p \<noteq> []) (split_on [LF, LF] (cleanGeneratedText r))))
     = cleanGeneratedText r"
proof -
  obtain qs where qs: "normalize_paragraphs (strip_artifacts r) = join [LF, LF] qs" "\<forall>q\<in>set qs. tidy q"
    using normalize_paragraphs_tidy by blast
  show ?thesis
  proof (cases "r = [] \<or> qs = []")
    case True
    with qs have "cleanGeneratedText r = []" by (auto simp: cleanGeneratedText_normal(3))
    then show ?thesis by (simp add: split_on_empty trim_def)
  next
    case False
    with qs have c: "cleanGeneratedText r = join [LF, LF] qs" by (simp add: cleanGeneratedText_normal(3))
    from qs(2) have nl: "\<forall>q\<in>set qs. LF \<notin> set q" by (simp add: tidy_def)
    from False have sp: "split_on [LF, LF] (join [LF, LF] qs) = qs"
      by (intro split_on_join_breaks[OF _ nl]) simp
    have tr: "trim q = q" if "q \<in> set qs" for q
      using that qs(2) by (intro trim_fixed) (simp add: tidy_def)
    have ne: "q \<noteq> []" if "q \<in> set qs" for q using that qs(2) by (simp add: tidy_def)
    have f: "filter (\<lambda>p. trim p \<noteq> []) qs = qs" using tr ne by (simp add: filter_id_conv)
    have m: "map trim qs = qs" using tr by (simp add: map_idI)
    show ?thesis by (simp add: c sp f m)
  qed
qed

text \<open>
  Where no line of any chunk starts like a list item, the round trip holds: storing
  the text as a section (\<^verbatim>\<open>convertContentToProseMirror\<close> under the section heading) and
  reading the section back with \<^verbatim>\<open>extractSectionText\<close> gives the non-blank chunks of
  the text, each trimmed, joined by blank lines, which is the original text up to white
  space (\<^verbatim>\<open>normalizeWhitespace\<close> of both is the same). When the text is a cleaned text,
  as the generation pipeline stores it, the text read back is the text itself.
\<close>

lemma roundtrip_plain_paragraphs:
  assumes "plain_paragraphs (sd_content sd)"
  shows "extractSectionText (sectionNode sd)
       = join [LF, LF] (map trim (filter (\<lambda>p. trim p \<noteq> []) (split_on [LF, LF] (sd_content sd))))
     \<and> normalizeWhitespace (extractSectionText (sectionNode sd)) = normalizeWhitespace (sd_content sd)
     \<and> (sd_content sd = cleanGeneratedText r \<longrightarrow> extractSectionText (sectionNode sd) = sd_content sd)"
proof -
  note e = extractSectionText_plain[OF assms]
  have "normalizeWhitespace (extractSectionText (sectionNode sd)) = normalizeWhitespace (sd_content sd)"
    unfolding e by (simp add: normalizeWhitespace_words words_paragraph_chunks)
  moreover have "extractSectionText (sectionNode sd) = sd_content sd" if "sd_content sd = cleanGeneratedText r"
    unfolding e using that cleaned_chunks[of r] by simp
  ultimately show ?thesis using e by blast
qed

text \<open>A generated text with untidy white space, and the section that stores its cleaned form.\<close>

definition untidy_text :: string where
  "untidy_text = ''  First  one.'' @ [LF, LF, LF] @ ''Second'' @ [LF] @ ''one. ''"

definition cleaned_section :: section_data where
  "cleaned_section =
     \<lparr>sd_templateSectionId = ''s1'', sd_templateSectionTitle = ''Introduction'',
      sd_content = ''First one.'' @ [LF, LF] @ ''Second one.'',
      sd_sourceRefs = None, sd_warnings = None\<rparr>"

lemma roundtrip_plain_paragraphs_example:
  "plain_paragraphs (sd_content cleaned_section)
   \<and> sd_content cleaned_section = cleanGeneratedText untidy_text
   \<and> extractSectionText (sectionNode cleaned_section) = ''First one.'' @ [LF, LF] @ ''Second one.''
   \<and> normalizeWhitespace (extractSectionText (sectionNode cleaned_section))
       = normalizeWhitespace (sd_content cleaned_section)"
proof -
  have c: "sd_content cleaned_section = ''First one.'' @ [LF, LF] @ ''Second one.''"
    by (simp add: cleaned_section_def)
  have 1: "plain_paragraphs (sd_content cleaned_section)"
    unfolding c by code_simp
  have "cleanGeneratedText untidy_text = ''First one.'' @ [LF, LF] @ ''Second one.''"
    by code_simp
  with c have 2: "sd_content cleaned_section = cleanGeneratedText untidy_text"
    by simp
  from roundtrip_plain_paragraphs[OF 1, of untidy_text] 2
  have 3: "extractSectionText (sectionNode cleaned_section) = sd_content cleaned_section"
    and 4: "normalizeWhitespace (extractSectionText (sectionNode cleaned_section))
       = normalizeWhitespace (sd_content cleaned_section)"
    by blast+
  from 3 c have 5: "extractSectionText (sectionNode cleaned_section) = ''First one.'' @ [LF, LF] @ ''Second one.''"
    by simp
  show ?thesis
    by (intro conjI) (rule 1, rule 2, rule 5, rule 4)
qed

subsection \<open>A paragraph with a line that starts with a number\<close>

text \<open>
  A paragraph of two lines, without emphasis and without a bar, that does not start
  with a list prefix; its second line starts with the number 42 and a full stop.
\<close>

definition numbered_line_section :: section_data where
  "numbered_line_section =
     \<lparr>sd_templateSectionId = ''s1'', sd_templateSectionTitle = ''Introduction'',
      sd_content = ''The total was'' @ [LF] @ ''42. That is all.'',
      sd_sourceRefs = None, sd_warnings = None\<rparr>"

text \<open>
  Claim C5 fails on the code at this paragraph. The list test of
  \<^verbatim>\<open>convertContentToProseMirror\<close> carries the \<^verbatim>\<open>m\<close> flag, so it looks at the start of
  every line of the chunk, where \<^verbatim>\<open>convertContentToDocx\<close> looks at the start of the
  chunk only. The chunk is stored as a bullet list of its two lines, the removal of the
  list marker takes the first digit of the number away, and the text read back is not
  the original text, also up to white space: 42 has become 2. The DOCX writer renders
  the same text as one regular paragraph.
\<close>

theorem roundtrip_numbered_line_loses_digit:
  "sd_content numbered_line_section = ''The total was'' @ [LF] @ ''42. That is all.''
   \<and> CHR ''*'' \<notin> set (sd_content numbered_line_section)
   \<and> CHR ''|'' \<notin> set (sd_content numbered_line_section)
   \<and> \<not> starts_bullet (sd_content numbered_line_section)
   \<and> \<not> starts_numbered (sd_content numbered_line_section)
   \<and> convertContentToProseMirror (sd_content numbered_line_section)
       = [Elem BulletListType None (Some
            [Elem ListItemType None (Some
               [Elem ParagraphType None (Some [TextNode ''The total was'' []])]),
             Elem ListItemType None (Some
               [Elem ParagraphType None (Some [TextNode ''2. That is all.'' []])])])]
   \<and> extractSectionText (sectionNode numbered_line_section)
       = ''The total was'' @ [LF, LF] @ ''2. That is all.''
   \<and> normalizeWhitespace (extractSectionText (sectionNode numbered_line_section))
       = ''The total was 2. That is all.''
   \<and> normalizeWhitespace (sd_content numbered_line_section) = ''The total was 42. That is all.''
   \<and> convertContentToDocx (sd_content numbered_line_section)
       = [Para \<lparr>p_text = None, p_heading = None, p_alignment = Some JUSTIFIED,
                 p_children = [Run \<lparr>run_text = ''The total was'' @ [LF] @ ''42. That is all.'',
                                     run_bold = False, run_italics = False\<rparr>],
                 p_bullet = None, p_spacing_before = None, p_spacing_after = Some 200,
                 p_indent = None\<rparr>]"
proof -
  have c: "sd_content numbered_line_section = ''The total was'' @ [LF] @ ''42. That is all.''"
    by (simp add: numbered_line_section_def)
  have 1: "CHR ''*'' \<notin> set (sd_content numbered_line_section)"
    unfolding c by (simp add: LF_def)
  have 2: "CHR ''|'' \<notin> set (sd_content numbered_line_section)"
    unfolding c by (simp add: LF_def)
  have 3: "\<not> starts_bullet (sd_content numbered_line_section)"
    unfolding c by code_simp
  have 4: "\<not> starts_numbered (sd_content numbered_line_section)"
    unfolding c by code_simp
  have 5: "convertContentToProseMirror (sd_content numbered_line_section)
       = [Elem BulletListType None (Some
            [Elem ListItemType None (Some
               [Elem ParagraphType None (Some [TextNode ''The total was'' []])]),
             Elem ListItemType None (Some
               [Elem ParagraphType None (Some [TextNode ''2. That is all.'' []])])])]"
    unfolding c by code_simp
  have 6: "extractSectionText (sectionNode numbered_line_section)
       = ''The total was'' @ [LF, LF] @ ''2. That is all.''"
  proof -
    have "extractSectionText (sectionNode numbered_line_section)
        = trim (concat (map extractText (convertContentToProseMirror (sd_content numbered_line_section))))"
      by (simp add: extractSectionText_def sectionNode_def node_content_def)
    also have "\<dots> = ''The total was'' @ [LF, LF] @ ''2. That is all.''"
      unfolding 5 by code_simp
    finally show ?thesis .
  qed
  have 7: "normalizeWhitespace (extractSectionText (sectionNode numbered_line_section))
       = ''The total was 2. That is all.''"
    unfolding 6 by code_simp
  have 8: "normalizeWhitespace (sd_content numbered_line_section) = ''The total was 42. That is all.''"
    unfolding c by code_simp
  have 9: "convertContentToDocx (sd_content numbered_line_section)
       = [Para \<lparr>p_text = None, p_heading = None, p_alignment = Some JUSTIFIED,
                 p_children = [Run \<lparr>run_text = ''The total was'' @ [LF] @ ''42. That is all.'',
                                     run_bold = False, run_italics = False\<rparr>],
                 p_bullet = None, p_spacing_before = None, p_spacing_after = Some 200,
                 p_indent = None\<rparr>]"
    unfolding c by code_simp
  show ?thesis
    by (intro conjI) (rule c, rule 1, rule 2, rule 3, rule 4, rule 5, rule 6, rule 7, rule 8, rule 9)
qed

section \<open>Lines, rows and cells of the markdown table\<close>

text \<open>
  The table as the specification reads it, character by character. The pieces of a
  string between occurrences of one character:
\<close>

fun split_at :: "char \<Rightarrow> string \<Rightarrow> string list" where
  "split_at d [] = [[]]"
| "split_at d (c # cs) =
     (if c = d then [] # split_at d cs
      else (case split_at d cs of [] \<Rightarrow> [[c]] | p # ps \<Rightarrow> (c # p) # ps))"



text \<open>
  The cells of a line are its pieces between bars, trimmed; the cells that a row keeps
  are the ones that are not empty.
\<close>

definition row_cells :: "string \<Rightarrow> string list" where
  "row_cells l = map trim (split_at CHR ''|'' l)"







subsection \<open>Splitting at one character\<close>

lemma split_at_nonempty: "split_at d s \<noteq> []"
  by (cases s) (auto split: list.splits)

lemma split_at_Cons:
  "split_at d (c # cs) =
     (if c = d then [] # split_at d cs else (c # hd (split_at d cs)) # tl (split_at d cs))"
  using split_at_nonempty[of d cs] by (cases "split_at d cs") simp_all

declare split_at.simps(2) [simp del]
declare split_at_Cons [simp]






subsection \<open>White space around lines and cells\<close>










subsection \<open>The rows of the parser\<close>










text \<open>
  Two things the parser does that its sibling of the draft service,
  \<^verbatim>\<open>parseMarkdownTableToNodes\<close>, does not do, and that the statement above leaves
  aside: a second line that merely holds a hyphen is skipped as if it were the
  separator line (the comment of the source says \<^verbatim>\<open>Skip separator line\<close>), and a cell
  made of dashes only is discarded.
\<close>

lemma parseMarkdownTable_hyphen_row_and_dash_cell:
  "parseMarkdownTable (''| A | B |'' @ [LF] @ ''| x-y | 2 |'' @ [LF] @ ''| 3 | 4 |'')
     = Some \<lparr>headers = [''A'', ''B''], rows = [[''3'', ''4'']]\<rparr>
   \<and> parseRow ''| 1 | - | 3 |'' = [''1'', ''3'']
   \<and> convertContentToProseMirror (''| A | B |'' @ [LF] @ ''| x-y | 2 |'' @ [LF] @ ''| 1 | - | 3 |'')
       = [Elem TableType (Some \<lparr>attr_id = None, attr_title = None, attr_level = None\<rparr>)
            (Some (map (\<lambda>(ty, cs). Elem TableRowType None
                     (Some (map (\<lambda>c. Elem ty None
                        (Some [Elem ParagraphType None (Some [TextNode c []])])) cs)))
               [(TableHeaderType, [''A'', ''B'']), (TableCellType, [''x-y'', ''2'']),
                (TableCellType, [''1'', ''-'', ''3''])]))]"
  by code_simp

section \<open>Structure extractor: the pattern-based fallback\<close>

text \<open>
  \<^verbatim>\<open>extractPlaceholders\<close> runs \<^verbatim>\<open>/\{\{([A-Z][A-Z0-9_]*)\}\}/g\<close> until it finds no more
  match (which also resets the expression's \<^verbatim>\<open>lastIndex\<close>, so every call starts at 0).
\<close>

record placeholder_match =
  ph_full :: string
  ph_name :: string
  ph_index :: nat

definition is_placeholder_char :: "char \<Rightarrow> bool" where
  "is_placeholder_char c \<longleftrightarrow> is_upper c \<or> is_digit c \<or> c = CHR ''_''"

definition match_placeholder_here :: "string \<Rightarrow> (string \<times> nat) option" where
  "match_placeholder_here s =
     (if take 2 s = ''{{''
      then (case drop 2 s of
              [] \<Rightarrow> None
            | c # rest \<Rightarrow>
                if is_upper c \<and> take 2 (dropWhile is_placeholder_char rest) = ''}}''
                then Some (c # takeWhile is_placeholder_char rest,
                           length (takeWhile is_placeholder_char rest) + 5)
                else None)
      else None)"

lemma match_placeholder_here_pos: "match_placeholder_here s = Some (name, n) \<Longrightarrow> 0 < n"
  by (auto simp: match_placeholder_here_def split: if_splits list.splits)

function extractPlaceholders_from :: "string \<Rightarrow> nat \<Rightarrow> placeholder_match list" where
  "extractPlaceholders_from t i =
     (if length t \<le> i then []
      else (case match_placeholder_here (drop i t) of
              Some (name, n) \<Rightarrow>
                \<lparr>ph_full = take n (drop i t), ph_name = name, ph_index = i\<rparr>
                  # extractPlaceholders_from t (i + n)
            | None \<Rightarrow> extractPlaceholders_from t (Suc i)))"
  by pat_completeness auto
termination
  by (relation "measure (\<lambda>(t, i). length t - i)") (auto dest: match_placeholder_here_pos)

declare extractPlaceholders_from.simps [simp del]

definition extractPlaceholders :: "string \<Rightarrow> placeholder_match list" where
  "extractPlaceholders t = extractPlaceholders_from t 0"

text \<open>
  The test \<^verbatim>\<open>/^\d+(\.\d+)*\.?\s+[A-Z]/\<close>. After the leading digits, every dot that a
  digit follows opens a group of the starred part, and a dot that no digit follows can
  only be the optional one; so the numeric prefix is read off from left to right.
  \<open>outline_rest\<close> is the line after that prefix, \<open>outline_prefix\<close> the prefix itself.
\<close>

function outline_groups :: "string \<Rightarrow> string" where
  "outline_groups s =
     (case s of
        c # d # rest \<Rightarrow>
          if c = CHR ''.'' \<and> is_digit d then outline_groups (dropWhile is_digit rest) else s
      | _ \<Rightarrow> s)"
  by pat_completeness auto
termination
proof (relation "measure length", goal_cases)
  case 1
  show ?case by simp
next
  case (2 s c cs d rest)
  have "length (dropWhile is_digit rest) \<le> length rest" by (rule length_dropWhile_le)
  with 2 show ?case by simp
qed

declare outline_groups.simps [simp del]

definition outline_rest :: "string \<Rightarrow> string option" where
  "outline_rest s =
     (if takeWhile is_digit s = [] then None
      else (case outline_groups (dropWhile is_digit s) of
              c # rest \<Rightarrow> if c = CHR ''.'' then Some rest else Some (c # rest)
            | [] \<Rightarrow> Some []))"

definition numbered_heading :: "string \<Rightarrow> bool" where
  "numbered_heading s =
     (case outline_rest s of
        None \<Rightarrow> False
      | Some r \<Rightarrow>
          takeWhile is_space r \<noteq> [] \<and>
          (case dropWhile is_space r of [] \<Rightarrow> False | c # rest \<Rightarrow> is_upper c))"

definition outline_prefix :: "string \<Rightarrow> string" where
  "outline_prefix s = (case outline_rest s of None \<Rightarrow> [] | Some r \<Rightarrow> take (length s - length r) s)"

definition count_dots :: "string \<Rightarrow> nat" where
  "count_dots s = length (filter (\<lambda>c. c = CHR ''.'') s)"

text \<open>
  One step of the loop over the non-blank lines of the plain text: the order counter
  and the structure before and after the line. \<open>generateId ord\<close> is the UUID generated
  for the descriptor of that order.
\<close>

definition pattern_step :: "(nat \<Rightarrow> string) \<Rightarrow> string \<Rightarrow> nat \<times> descriptor list \<Rightarrow> nat \<times> descriptor list" where
  "pattern_step generateId line st =
     (let ord = fst st; structure = snd st; trimmed = trim line
      in if length trimmed > 100 then st
         else (let placeholders = extractPlaceholders trimmed
               in if length placeholders > 0
                  then (Suc ord,
                        structure @ [\<lparr>sec_id = generateId ord, level = 1, title = trimmed,
                                       placeholder = Some (ph_name (hd placeholders)),
                                       order_no = ord, isTitle = False\<rparr>])
                  else if numbered_heading trimmed
                  then (let dotCount = count_dots trimmed;
                            lvl = min (int dotCount + 1) 4
                        in (Suc ord,
                            structure @ [\<lparr>sec_id = generateId ord, level = lvl, title = trimmed,
                                           placeholder = None, order_no = ord, isTitle = False\<rparr>]))
                  else st))"

definition pattern_extract :: "(nat \<Rightarrow> string) \<Rightarrow> string \<Rightarrow> descriptor list" where
  "pattern_extract generateId plainText =
     snd (fold (pattern_step generateId) (filter (\<lambda>line. trim line \<noteq> []) (split_on [LF] plainText)) (1, []))"

lemma outline_groups_suffix: "\<exists>p. s = p @ outline_groups s"
proof (induction s rule: outline_groups.induct)
  case (1 s)
  show ?case
  proof (cases s)
    case Nil
    then show ?thesis by (subst outline_groups.simps) simp
  next
    case (Cons c cs)
    show ?thesis
    proof (cases cs)
      case Nil
      with Cons show ?thesis by (subst outline_groups.simps) simp
    next
      case (Cons d rest)
      note cs = this
      show ?thesis
      proof (cases "c = CHR ''.'' \<and> is_digit d")
        case False
        with \<open>s = c # cs\<close> cs have "outline_groups s = s"
          by (subst outline_groups.simps) auto
        then show ?thesis by simp
      next
        case True
        from "1.IH"[OF \<open>s = c # cs\<close> cs True] obtain p where
          p: "dropWhile is_digit rest = p @ outline_groups (dropWhile is_digit rest)" by blast
        have g: "outline_groups s = outline_groups (dropWhile is_digit rest)"
          using \<open>s = c # cs\<close> cs True by (subst outline_groups.simps) simp
        have dw: "dropWhile is_digit rest = p @ outline_groups s"
          unfolding g using p .
        have s1: "s = (c # d # takeWhile is_digit rest) @ dropWhile is_digit rest"
          using \<open>s = c # cs\<close> cs by simp
        have "s = ((c # d # takeWhile is_digit rest) @ p) @ outline_groups s"
          using s1 dw by (metis append.assoc)
        then show ?thesis by blast
      qed
    qed
  qed
qed

lemma outline_rest_suffix:
  assumes "outline_rest s = Some r"
  shows "s = outline_prefix s @ r"
proof -
  from outline_groups_suffix[of "dropWhile is_digit s"] obtain p where
    p: "dropWhile is_digit s = p @ outline_groups (dropWhile is_digit s)" by blast
  have "\<exists>q. outline_groups (dropWhile is_digit s) = q @ r"
    using assms by (auto simp: outline_rest_def split: if_splits list.splits intro: exI[of _ "[]"] exI[of _ "''.''"])
  then obtain q where q: "outline_groups (dropWhile is_digit s) = q @ r" by blast
  have "s = takeWhile is_digit s @ dropWhile is_digit s" by simp
  with p q have s: "s = (takeWhile is_digit s @ p @ q) @ r" by simp
  then have "take (length s - length r) s = takeWhile is_digit s @ p @ q"
    by (metis append_eq_conv_conj length_append add_diff_cancel_right')
  with assms s show ?thesis by (simp add: outline_prefix_def)
qed

lemma count_dots_append: "count_dots (a @ b) = count_dots a + count_dots b"
  by (simp add: count_dots_def)

text \<open>
  Claim C6, amended. In the pattern-based fallback, every line of at most 100
  characters (trimmed) that contains no placeholder token, starts with a numeric
  outline prefix followed by white space and a capital letter, and has no dot after
  that prefix, becomes a descriptor whose level is \<open>min(4, dotCount + 1)\<close>, with
  \<open>dotCount\<close> the number of dots of the prefix. The title \<^verbatim>\<open>2.1 Background\<close> yields
  level 2.
\<close>

theorem pattern_step_numbered_level:
  assumes "length (trim line) \<le> 100" and "extractPlaceholders (trim line) = []"
    and "numbered_heading (trim line)"
    and "outline_rest (trim line) = Some rest" and "CHR ''.'' \<notin> set rest"
  shows "trim line = outline_prefix (trim line) @ rest
     \<and> pattern_step generateId line (n, structure)
       = (Suc n, structure @ [\<lparr>sec_id = generateId n,
                               level = min 4 (int (count_dots (outline_prefix (trim line))) + 1),
                               title = trim line, placeholder = None, order_no = n, isTitle = False\<rparr>])"
proof -
  note s = outline_rest_suffix[OF assms(4)]
  from assms(5) have "count_dots rest = 0" by (auto simp: count_dots_def filter_empty_conv)
  with count_dots_append[of "outline_prefix (trim line)" rest] s
  have "count_dots (trim line) = count_dots (outline_prefix (trim line))" by simp
  with assms(1-3) s show ?thesis by (simp add: pattern_step_def Let_def min.commute)
qed

theorem pattern_step_numbered_level_witness:
  "length (trim ''2.1 Background'') \<le> 100 \<and> extractPlaceholders (trim ''2.1 Background'') = []
   \<and> numbered_heading (trim ''2.1 Background'')
   \<and> outline_rest (trim ''2.1 Background'') = Some '' Background''
   \<and> CHR ''.'' \<notin> set '' Background''
   \<and> outline_prefix (trim ''2.1 Background'') = ''2.1''
   \<and> pattern_step (\<lambda>n. ''id'') ''2.1 Background'' (1, [])
       = (2, [\<lparr>sec_id = ''id'', level = 2, title = ''2.1 Background'', placeholder = None,
               order_no = 1, isTitle = False\<rparr>])"
proof -
  have t: "trim ''2.1 Background'' = ''2.1 Background''" by code_simp
  have 1: "length (trim ''2.1 Background'') \<le> 100" unfolding t by simp
  have 2: "extractPlaceholders (trim ''2.1 Background'') = []" unfolding t by code_simp
  have 3: "numbered_heading (trim ''2.1 Background'')" unfolding t by code_simp
  have 4: "outline_rest (trim ''2.1 Background'') = Some '' Background''" unfolding t by code_simp
  have 5: "CHR ''.'' \<notin> set '' Background''" by simp
  have 6: "outline_prefix (trim ''2.1 Background'') = ''2.1''" unfolding t by code_simp
  have p6: "outline_prefix ''2.1 Background'' = ''2.1''" by code_simp
  have 7: "count_dots ''2.1'' = 1" by code_simp
  from pattern_step_numbered_level[OF 1 2 3 4 5, of "\<lambda>n. ''id''" 1 "[]"]
  have 8: "pattern_step (\<lambda>n. ''id'') ''2.1 Background'' (1, [])
       = (2, [\<lparr>sec_id = ''id'', level = 2, title = ''2.1 Background'', placeholder = None,
               order_no = 1, isTitle = False\<rparr>])"
    by (simp add: t p6 7)
  show ?thesis
    by (intro conjI) (rule 1, rule 2, rule 3, rule 4, rule 5, rule 6, rule 8)
qed

text \<open>
  Claim C6, as stated, fails: a short line with a numeric outline prefix and a capital
  letter that also holds a placeholder token is taken by the placeholder branch, which
  comes first, and becomes a level 1 descriptor, whatever its prefix: here the prefix
  \<^verbatim>\<open>1.1\<close> would give level 2.
\<close>

theorem pattern_step_placeholder_line_level_one:
  "length (trim ''1.1 Results {{RESULTS}}'') \<le> 100
   \<and> numbered_heading (trim ''1.1 Results {{RESULTS}}'')
   \<and> outline_prefix (trim ''1.1 Results {{RESULTS}}'') = ''1.1''
   \<and> min 4 (int (count_dots ''1.1'') + 1) = 2
   \<and> map level (snd (pattern_step (\<lambda>n. ''id'') ''1.1 Results {{RESULTS}}'' (1, []))) = [1]"
proof -
  have t: "trim ''1.1 Results {{RESULTS}}'' = ''1.1 Results {{RESULTS}}''" by code_simp
  have 1: "length (trim ''1.1 Results {{RESULTS}}'') \<le> 100" unfolding t by simp
  have 2: "numbered_heading (trim ''1.1 Results {{RESULTS}}'')" unfolding t by code_simp
  have 3: "outline_prefix (trim ''1.1 Results {{RESULTS}}'') = ''1.1''" unfolding t by code_simp
  have 4: "min 4 (int (count_dots ''1.1'') + 1) = 2" by (simp add: count_dots_def)
  have 5: "map level (snd (pattern_step (\<lambda>n. ''id'') ''1.1 Results {{RESULTS}}'' (1, []))) = [1]"
    by code_simp
  show ?thesis
    by (intro conjI) (rule 1, rule 2, rule 3, rule 4, rule 5)
qed

text \<open>
  The dot count of the source is taken over the whole trimmed line, so a dot in the
  title raises the level: \<^verbatim>\<open>1 Overview of v2.0\<close> has no dot in its prefix and gets
  level 2.
\<close>

lemma pattern_step_counts_every_dot:
  "numbered_heading ''1 Overview of v2.0'' \<and> outline_prefix ''1 Overview of v2.0'' = ''1''
   \<and> map level (snd (pattern_step (\<lambda>n. ''id'') ''1 Overview of v2.0'' (1, []))) = [2]"
  by code_simp

end
